theory Spec2Isabelle
  imports Complex_Main "HOL-Library.Sublist" "HOL-Library.Char_ord" "HOL-Library.List_Lexorder"
begin

section \<open>Commands, contexts and check predicates (command_client.py)\<close>

text \<open>
  Exceptions are values. \<open>PermissionError\<close> is the class of command_client.py (it derives
  from hikari's \<open>HikariError\<close>, hence from \<open>Exception\<close>); \<open>BaseOnly\<close> stands for the
  classes that derive from \<open>BaseException\<close> but not from \<open>Exception\<close>
  (\<open>KeyboardInterrupt\<close>, \<open>asyncio.CancelledError\<close>, ...), which an
  \<open>except Exception\<close> clause does not catch.
\<close>

datatype exn =
    PermissionError
  | CommandError string
  | ValueError
  | AttributeError
  | OtherException string
  | BaseOnly string

fun is_Exception :: "exn \<Rightarrow> bool" where
  "is_Exception (BaseOnly _) = False"
| "is_Exception _ = True"

datatype TriggerTypes = PREFIX | MENTION

text \<open>\<open>str.startswith\<close>: \<open>startswith s p\<close> is Python's \<open>s.startswith(p)\<close>.\<close>

fun startswith :: "string \<Rightarrow> string \<Rightarrow> bool" where
  "startswith s [] = True"
| "startswith [] (c # p) = False"
| "startswith (x # s) (c # p) = (x = c \<and> startswith s p)"

record Message =
  author_id :: int
  guild_id :: "int option"
  channel_id :: int
  msg_content :: string

text \<open>
  The slots of \<open>Context\<close>. \<open>__init__\<close> assigns neither \<open>command\<close> nor
  \<open>triggering_name\<close>: an unassigned slot is \<open>None\<close> here, and reading it raises
  \<open>AttributeError\<close>. \<open>command\<close> holds a reference to a command object; the reference is
  the command's \<open>ref\<close>. The \<open>fabric\<close> handle is opaque and is left out.
\<close>

record Context =
  command :: "nat option"
  content :: string
  message :: Message
  trigger :: string
  trigger_type :: TriggerTypes
  triggering_name :: "string option"

definition Context_init :: "string \<Rightarrow> Message \<Rightarrow> string \<Rightarrow> TriggerTypes \<Rightarrow> Context" where
  "Context_init content_arg message_arg trigger_arg trigger_type_arg =
     \<lparr> command = None, content = content_arg, message = message_arg, trigger = trigger_arg,
       trigger_type = trigger_type_arg, triggering_name = None \<rparr>"

definition prune_content :: "Context \<Rightarrow> nat \<Rightarrow> Context" where
  "prune_content ctx n = ctx\<lparr>content := drop n (content ctx)\<rparr>"

definition set_command_trigger :: "Context \<Rightarrow> string \<Rightarrow> Context" where
  "set_command_trigger ctx t = ctx\<lparr>triggering_name := Some t\<rparr>"

definition set_command :: "Context \<Rightarrow> nat \<Rightarrow> Context" where
  "set_command ctx r = ctx\<lparr>command := Some r\<rparr>"

text \<open>
  What calling a check predicate does: it returns a truth value or raises, and it may have
  mutated the context it was given.
\<close>

datatype outcome = Returns bool | Raises exn

text \<open>
  An entry of \<open>Command._checks\<close>: the command's own bound method
  \<open>check_prefix_from_context\<close> (the entry \<open>__init__\<close> installs), or any other callable
  (synchronous or a coroutine function, both are simply called with the context).
\<close>

datatype CheckLikeT =
    BoundCheckPrefix
  | Callable "Context \<Rightarrow> outcome \<times> Context"

record Command =
  ref :: nat
  name :: string
  level :: int
  triggers :: "string list"
  checks :: "CheckLikeT list"
  cluster :: "nat option"

text \<open>
  \<open>Command.__init__\<close>: the check list starts as the bound prefix check alone; an empty or
  missing trigger is replaced by the generated one (the function's name with underscores
  turned into spaces); \<open>None\<close> entries are filtered out of the triggers.
\<close>

definition generate_trigger :: "string \<Rightarrow> string" where
  "generate_trigger func_name = map (\<lambda>c. if c = CHR ''_'' then CHR '' '' else c) func_name"

definition Command_init ::
  "nat \<Rightarrow> string \<Rightarrow> string option \<Rightarrow> string option list \<Rightarrow> int \<Rightarrow> Command" where
  "Command_init r func_name trigger_arg aliases level_arg =
     (let trig = (case trigger_arg of
                    None \<Rightarrow> generate_trigger func_name
                  | Some t \<Rightarrow> if t = [] then generate_trigger func_name else t)
      in \<lparr> ref = r, name = func_name, level = level_arg,
           triggers = trig # List.map_filter id aliases,
           checks = [BoundCheckPrefix], cluster = None \<rparr>)"

definition register_check :: "Command \<Rightarrow> CheckLikeT \<Rightarrow> Command" where
  "register_check cmd chk = cmd\<lparr>checks := checks cmd @ [chk]\<rparr>"

text \<open>\<open>Command.check_prefix\<close>: the implicit \<open>return None\<close> after the loop is \<open>None\<close>.\<close>

fun first_trigger :: "string list \<Rightarrow> string \<Rightarrow> string option" where
  "first_trigger [] s = None"
| "first_trigger (t # ts) s = (if startswith s t then Some t else first_trigger ts s)"

definition Command_check_prefix :: "Command \<Rightarrow> string \<Rightarrow> string option" where
  "Command_check_prefix cmd s = first_trigger (triggers cmd) s"

text \<open>\<open>Command.check_prefix_from_context\<close>.\<close>

fun prefix_from_context :: "string list \<Rightarrow> Context \<Rightarrow> bool \<times> Context" where
  "prefix_from_context [] ctx = (False, ctx)"
| "prefix_from_context (t # ts) ctx =
     (if startswith (content ctx) t then (True, set_command_trigger ctx t)
      else prefix_from_context ts ctx)"

definition Command_check_prefix_from_context :: "Command \<Rightarrow> Context \<Rightarrow> bool \<times> Context" where
  "Command_check_prefix_from_context cmd ctx = prefix_from_context (triggers cmd) ctx"

definition call_check :: "Command \<Rightarrow> CheckLikeT \<Rightarrow> Context \<Rightarrow> outcome \<times> Context" where
  "call_check cmd chk ctx =
     (case chk of
        BoundCheckPrefix \<Rightarrow>
          (let (r, ctx') = Command_check_prefix_from_context cmd ctx in (Returns r, ctx'))
      | Callable f \<Rightarrow> f ctx)"

text \<open>
  The loop of \<open>Command.check\<close>. The state is the local \<open>result\<close>, the shared context and
  (a ghost of the model) the calls made so far, in order: the context each predicate was
  called with and what the call did.
  \<^item> a predicate raising inside \<open>except Exception\<close> sets \<open>result = False\<close>; the \<open>else\<close>
    clause of the \<open>try\<close> is skipped, so there is no \<open>break\<close>: the loop goes on;
  \<^item> a raise the clause does not catch leaves the function;
  \<^item> a predicate returning a false value breaks out of the loop.
\<close>

fun check_loop ::
  "Command \<Rightarrow> CheckLikeT list \<Rightarrow> bool \<Rightarrow> (Context \<times> outcome) list \<Rightarrow> Context
     \<Rightarrow> (exn + bool) \<times> (Context \<times> outcome) list \<times> Context" where
  "check_loop cmd [] result called ctx = (Inr result, called, ctx)"
| "check_loop cmd (chk # rest) result called ctx =
     (case call_check cmd chk ctx of
        (Raises e, ctx') \<Rightarrow>
          if is_Exception e then check_loop cmd rest False (called @ [(ctx, Raises e)]) ctx'
          else (Inl e, called @ [(ctx, Raises e)], ctx')
      | (Returns r, ctx') \<Rightarrow>
          if \<not> r then (Inr r, called @ [(ctx, Returns r)], ctx')
          else check_loop cmd rest r (called @ [(ctx, Returns r)]) ctx')"

definition Command_check ::
  "Command \<Rightarrow> Context \<Rightarrow> (exn + bool) \<times> (Context \<times> outcome) list \<times> Context" where
  "Command_check cmd ctx = check_loop cmd (checks cmd) False [] (set_command ctx (ref cmd))"

section \<open>Clusters (command_client.py)\<close>

text \<open>
  A cluster object. \<open>members\<close> is what \<open>inspect.getmembers(self, predicate=...)\<close> finds:
  the attributes of the object that are commands, as (attribute name, command) pairs in the
  order of the attribute names. \<open>warnings\<close> collects the triggers for which the logger
  was sent the overlap warning.
\<close>

record CommandCluster =
  cluster_ref :: nat
  members :: "(string \<times> Command) list"
  cluster_commands :: "Command list"
  warnings :: "string list"

text \<open>
  \<open>Command.bind_cluster\<close>: the command remembers the cluster, and \<open>setattr\<close> stores the
  bound function on the cluster under the function's name, where it replaces a command
  that was an attribute of that name. The argument parser is a collaborator and is left out.
\<close>

definition bind_cluster ::
  "Command \<Rightarrow> 'a CommandCluster_scheme \<Rightarrow> Command \<times> 'a CommandCluster_scheme" where
  "bind_cluster cmd cl =
     (cmd\<lparr>cluster := Some (cluster_ref cl)\<rparr>,
      cl\<lparr>members := filter (\<lambda>(attr, _). attr \<noteq> name cmd) (members cl)\<rparr>)"

text \<open>
  \<open>CommandCluster.get_command_from_name\<close>. The walrus condition
  \<open>if prefix := command_obj.check_prefix(content)\<close> tests the truth value of the returned
  trigger: \<open>None\<close> and the empty string are both false.
\<close>

fun command_from_name_loop :: "Command list \<Rightarrow> string \<Rightarrow> (Command \<times> string) list" where
  "command_from_name_loop [] s = []"
| "command_from_name_loop (cmd # rest) s =
     (case Command_check_prefix cmd s of
        None \<Rightarrow> command_from_name_loop rest s
      | Some p \<Rightarrow> if p \<noteq> [] then (cmd, p) # command_from_name_loop rest s
                 else command_from_name_loop rest s)"

definition get_command_from_name ::
  "'a CommandCluster_scheme \<Rightarrow> string \<Rightarrow> (Command \<times> string) list" where
  "get_command_from_name cl s = command_from_name_loop (cluster_commands cl) s"

text \<open>
  \<open>CommandCluster.bind_commands\<close>. \<open>assert_that\<close> raises \<open>ValueError\<close> when its condition
  is false. The member list is computed once, before the loop. The final sort is Python's
  stable sort with \<open>reverse=True\<close>, which keeps equal names in their original order.
\<close>

fun bind_loop ::
  "(string \<times> Command) list \<Rightarrow> 'a CommandCluster_scheme \<Rightarrow> 'a CommandCluster_scheme" where
  "bind_loop [] cl = cl"
| "bind_loop ((attr, cmd) # rest) cl =
     (let (cmd', cl1) = bind_cluster cmd cl;
          warned = filter (\<lambda>t. get_command_from_name cl1 t \<noteq> []) (triggers cmd');
          cl2 = cl1\<lparr>warnings := warnings cl1 @ warned\<rparr>;
          cl3 = cl2\<lparr>cluster_commands := cluster_commands cl2 @ [cmd']\<rparr>
      in bind_loop rest cl3)"

definition sort_by_name_reversed :: "Command list \<Rightarrow> Command list" where
  "sort_by_name_reversed cmds = rev (sort_key name (rev cmds))"

definition bind_commands :: "'a CommandCluster_scheme \<Rightarrow> exn + 'a CommandCluster_scheme" where
  "bind_commands cl =
     (if cluster_commands cl \<noteq> [] then Inl ValueError
      else (let cl' = bind_loop (members cl) cl
            in Inr (cl'\<lparr>cluster_commands := sort_by_name_reversed (cluster_commands cl')\<rparr>)))"

text \<open>
  \<open>CommandCluster.get_command_from_context\<close> is an asynchronous generator over one shared,
  mutable context. Its model lists the commands it yields, each with the context as it is at
  the moment of the yield (the consumer runs then, before the next check touches the
  context), then the exception that ended the generator, if one did, and the context at the
  end. A consumer that stops at the n-th yield never runs what comes after it.
\<close>

fun command_from_context_loop ::
  "Command list \<Rightarrow> Context \<Rightarrow> (Command \<times> Context) list \<times> exn option \<times> Context" where
  "command_from_context_loop [] ctx = ([], None, ctx)"
| "command_from_context_loop (cmd # rest) ctx =
     (case Command_check cmd ctx of
        (Inl e, _, ctx') \<Rightarrow> ([], Some e, ctx')
      | (Inr ok, _, ctx') \<Rightarrow>
          (let (ys, err, ctx'') = command_from_context_loop rest ctx'
           in ((if ok then [(cmd, ctx')] else []) @ ys, err, ctx'')))"

definition get_command_from_context ::
  "'a CommandCluster_scheme \<Rightarrow> Context \<Rightarrow> (Command \<times> Context) list \<times> exn option \<times> Context" where
  "get_command_from_context cl ctx = command_from_context_loop (cluster_commands cl) ctx"

section \<open>The command client (command_client.py)\<close>

text \<open>
  \<open>CommandClient\<close> inherits from \<open>CommandCluster\<close>: the record extends the cluster's.
  \<open>access_levels\<close> and \<open>prefixes\<close> are the fields of its options. \<open>get_guild_prefix\<close> is
  \<open>None\<close> when the object has no such attribute (\<open>hasattr\<close> is false) and the resolver
  otherwise. \<open>clusters\<close> is the dictionary from cluster names to clusters, in insertion order.
\<close>

record CommandClient = CommandCluster +
  access_levels :: "int \<rightharpoonup> int"
  prefixes :: "string list"
  get_guild_prefix :: "(int \<Rightarrow> string option) option"
  clusters :: "(string \<times> CommandCluster) list"

definition access_check :: "CommandClient \<Rightarrow> Command \<Rightarrow> Message \<Rightarrow> bool" where
  "access_check client cmd msg =
     ((case access_levels client (author_id msg) of None \<Rightarrow> 0 | Some l \<Rightarrow> l) \<ge> level cmd)"

text \<open>
  \<open>CommandClient._get_prefixes\<close>: the conditional expression tests the truth value of the
  resolved prefix, so \<open>None\<close> and the empty string both leave the global prefixes alone.
\<close>

definition get_prefixes :: "CommandClient \<Rightarrow> int option \<Rightarrow> string list" where
  "get_prefixes client guild =
     (case guild of
        None \<Rightarrow> prefixes client
      | Some g \<Rightarrow>
          (case get_guild_prefix client of
             None \<Rightarrow> prefixes client
           | Some resolver \<Rightarrow>
               (case resolver g of
                  None \<Rightarrow> prefixes client
                | Some guild_prefix \<Rightarrow>
                    if guild_prefix \<noteq> [] then guild_prefix # prefixes client
                    else prefixes client)))"

text \<open>\<open>CommandClient.check_prefix\<close>.\<close>

fun first_prefix :: "string list \<Rightarrow> string \<Rightarrow> string option" where
  "first_prefix [] s = None"
| "first_prefix (p # ps) s = (if startswith s p then Some p else first_prefix ps s)"

definition CommandClient_check_prefix :: "CommandClient \<Rightarrow> Message \<Rightarrow> string option" where
  "CommandClient_check_prefix client msg =
     first_prefix (get_prefixes client (guild_id msg)) (msg_content msg)"

text \<open>
  \<open>CommandClient.get_global_command_from_context\<close>: the client itself first, then the
  registered clusters, each generator run to its end before the next one starts; an
  exception ends the whole traversal.
\<close>

fun global_loop ::
  "Command list list \<Rightarrow> Context \<Rightarrow> (Command \<times> Context) list \<times> exn option \<times> Context" where
  "global_loop [] ctx = ([], None, ctx)"
| "global_loop (cmds # rest) ctx =
     (case command_from_context_loop cmds ctx of
        (ys, Some e, ctx') \<Rightarrow> (ys, Some e, ctx')
      | (ys, None, ctx') \<Rightarrow>
          (let (zs, err, ctx'') = global_loop rest ctx' in (ys @ zs, err, ctx'')))"

definition get_global_command_from_context ::
  "CommandClient \<Rightarrow> Context \<Rightarrow> (Command \<times> Context) list \<times> exn option \<times> Context" where
  "get_global_command_from_context client ctx =
     global_loop (cluster_commands client # map (\<lambda>(_, cl). cluster_commands cl) (clusters client)) ctx"

text \<open>
  The \<open>async for\<close> of \<open>on_message_create\<close>: it takes yields until one passes the access
  check and breaks there; when the generator ends first, by exhaustion or by an exception,
  no command is selected, and the exception propagates.
\<close>

fun first_accessible ::
  "CommandClient \<Rightarrow> Message \<Rightarrow> (Command \<times> Context) list \<Rightarrow> (Command \<times> Context) option" where
  "first_accessible client msg [] = None"
| "first_accessible client msg ((cmd, ctx) # rest) =
     (if access_check client cmd msg then Some (cmd, ctx) else first_accessible client msg rest)"

text \<open>
  \<open>CommandClient.on_message_create\<close>. The result is the exception that left the function,
  or \<open>None\<close> when it returned without executing anything, or the command whose \<open>execute\<close>
  it calls together with the context it passes. (\<open>mention\<close> is always \<open>None\<close> in the source.)
  \<open>if prefix or mention\<close> tests a truth value: an empty prefix counts as no prefix.
\<close>

definition on_message_create :: "CommandClient \<Rightarrow> Message \<Rightarrow> exn + (Command \<times> Context) option" where
  "on_message_create client msg =
     (case CommandClient_check_prefix client msg of
        None \<Rightarrow> Inr None
      | Some p \<Rightarrow>
          if p = [] then Inr None
          else
            (let command_args = drop (length p) (msg_content msg);
                 ctx = Context_init command_args msg p PREFIX;
                 (yielded, err, _) = get_global_command_from_context client ctx
             in case first_accessible client msg yielded of
                  Some (cmd, ctx') \<Rightarrow>
                    (case triggering_name ctx' of
                       None \<Rightarrow> Inl AttributeError
                     | Some t \<Rightarrow> Inr (Some (cmd, prune_content ctx' (length t + 1))))
                | None \<Rightarrow> (case err of Some e \<Rightarrow> Inl e | None \<Rightarrow> Inr None)))"


text \<open>
  Notions for stating what the traversal of \<open>on_message_create\<close> does.
  \<open>traversal_order\<close> lists the commands in the order \<open>get_global_command_from_context\<close>
  visits them: the client's own, then those of the registered clusters in registration
  order. \<open>context_before cmds ctx k\<close> is the shared context when the check of the
  \<open>k\<close>-th command starts, each check working on the context the check before it left;
  \<open>check_result cmds ctx k\<close> is what that check returns or raises. A command is passed
  over when its check returned false, or returned true while the access check refused it.
\<close>

primrec context_before :: "Command list \<Rightarrow> Context \<Rightarrow> nat \<Rightarrow> Context" where
  "context_before cmds ctx 0 = ctx"
| "context_before cmds ctx (Suc k) =
     snd (snd (Command_check (cmds ! k) (context_before cmds ctx k)))"

definition check_result :: "Command list \<Rightarrow> Context \<Rightarrow> nat \<Rightarrow> exn + bool" where
  "check_result cmds ctx k = fst (Command_check (cmds ! k) (context_before cmds ctx k))"

definition traversal_order :: "CommandClient \<Rightarrow> Command list" where
  "traversal_order client =
     cluster_commands client @ concat (map (\<lambda>(_, cl). cluster_commands cl) (clusters client))"

definition passed_over :: "CommandClient \<Rightarrow> Message \<Rightarrow> Command list \<Rightarrow> Context \<Rightarrow> nat \<Rightarrow> bool" where
  "passed_over client msg cmds ctx j \<longleftrightarrow>
     check_result cmds ctx j = Inr False
     \<or> (check_result cmds ctx j = Inr True \<and> \<not> access_check client (cmds ! j) msg)"

section \<open>The backoff iterator and the error manager (rest_manager.py)\<close>

text \<open>
  The exception classes of hikari that rest_manager.py names, with the base classes that
  \<open>issubclass\<close> walks through. \<open>mro c\<close> lists \<open>c\<close> and its bases.
\<close>

datatype exc_class =
    BaseException
  | Exception
  | RuntimeError
  | HikariError
  | HTTPError
  | HTTPResponseError
  | ClientHTTPResponseError
  | InternalServerError
  | RateLimitedError
  | ForbiddenError
  | NotFoundError

definition HTTPResponseError_mro :: "exc_class list" where
  "HTTPResponseError_mro =
     [HTTPResponseError, HTTPError, HikariError, RuntimeError, Exception, BaseException]"

fun mro :: "exc_class \<Rightarrow> exc_class list" where
  "mro BaseException = [BaseException]"
| "mro Exception = [Exception, BaseException]"
| "mro RuntimeError = [RuntimeError, Exception, BaseException]"
| "mro HikariError = [HikariError, RuntimeError, Exception, BaseException]"
| "mro HTTPError = [HTTPError, HikariError, RuntimeError, Exception, BaseException]"
| "mro HTTPResponseError = HTTPResponseError_mro"
| "mro ClientHTTPResponseError = ClientHTTPResponseError # HTTPResponseError_mro"
| "mro InternalServerError = InternalServerError # HTTPResponseError_mro"
| "mro RateLimitedError = RateLimitedError # ClientHTTPResponseError # HTTPResponseError_mro"
| "mro ForbiddenError = ForbiddenError # ClientHTTPResponseError # HTTPResponseError_mro"
| "mro NotFoundError = NotFoundError # ClientHTTPResponseError # HTTPResponseError_mro"

definition issubclass :: "exc_class \<Rightarrow> exc_class list \<Rightarrow> bool" where
  "issubclass c classes = (\<exists>d \<in> set classes. d \<in> set (mro c))"

text \<open>
  An exception raised by the guarded action: its class and, for a rate-limit error, the
  \<open>retry_after\<close> hint in seconds (a finite number).
\<close>

record raised =
  exc_type :: exc_class
  retry_after :: real

text \<open>
  Modelled from the spec: the Backoff Iterator (\<open>yuyo.backoff.Backoff\<close>, a dependency that
  is not under src/). Its state is the attempt count, the maximum number of attempts, the
  delay that \<open>set_next_backoff\<close> put in place of the next sleep, and whether it was
  force-finished. It hands out at most \<open>max_retries\<close> permits; the first permit is
  immediate and each later one comes after a sleep: the overriding delay when one is set
  (for that sleep only), the iterator's own capped exponential delay for the attempt
  otherwise. The growth function is configuration, so a sleep of the second kind is recorded
  by its attempt number only.
\<close>

record Backoff =
  retries :: nat
  max_retries :: nat
  next_backoff :: "real option"
  finished :: bool

datatype sleep = Hinted real | Computed nat

text \<open>Modelled from the spec: a fresh iterator with the given maximum number of attempts.\<close>

definition Backoff_init :: "nat \<Rightarrow> Backoff" where
  "Backoff_init n = \<lparr> retries = 0, max_retries = n, next_backoff = None, finished = False \<rparr>"

text \<open>
  Modelled from the spec: \<open>reset\<close> restores the attempt count to zero for reuse by an
  independent call (and with it clears a pending override and the finished mark).
\<close>

definition reset :: "Backoff \<Rightarrow> Backoff" where
  "reset b = b\<lparr>retries := 0, next_backoff := None, finished := False\<rparr>"

text \<open>
  Modelled from the spec: \<open>finish\<close> ends the sequence at once, whatever attempts remain.
\<close>

definition finish :: "Backoff \<Rightarrow> Backoff" where
  "finish b = b\<lparr>finished := True\<rparr>"

text \<open>
  Modelled from the spec: \<open>set_next_backoff\<close> overrides the delay of the next sleep only.
\<close>

definition set_next_backoff :: "Backoff \<Rightarrow> real \<Rightarrow> Backoff" where
  "set_next_backoff b seconds = b\<lparr>next_backoff := Some seconds\<rparr>"

text \<open>
  Modelled from the spec: one step of the iteration (\<open>__anext__\<close>). \<open>None\<close> is the end of
  the sequence; otherwise the sleep made before the permit (none before the first) and the
  new state.
\<close>

definition anext :: "Backoff \<Rightarrow> (sleep option \<times> Backoff) option" where
  "anext b =
     (if finished b \<or> retries b \<ge> max_retries b then None
      else if retries b = 0 then Some (None, b\<lparr>retries := 1\<rparr>)
      else Some (Some (case next_backoff b of
                         Some seconds \<Rightarrow> Hinted seconds
                       | None \<Rightarrow> Computed (retries b)),
                 b\<lparr>retries := Suc (retries b), next_backoff := None\<rparr>))"

text \<open>
  The three rule callbacks of \<open>HikariErrorManager\<close>. Each returns a truth value and may
  have changed the manager's backoff handler.
\<close>

datatype rule_callback = on_internal_server_error | on_rate_limited_error | on_break_on

fun run_callback :: "rule_callback \<Rightarrow> raised \<Rightarrow> Backoff \<Rightarrow> bool \<times> Backoff" where
  "run_callback on_break_on e b = (False, finish b)"
| "run_callback on_internal_server_error e b = (False, b)"
| "run_callback on_rate_limited_error e b =
     (if retry_after e > 10 then (True, b) else (False, set_next_backoff b (retry_after e)))"

record HikariErrorManager =
  backoff_handler :: Backoff
  rules :: "(exc_class list \<times> rule_callback) list"

text \<open>\<open>HikariErrorManager.clear_rules\<close> and \<open>__init__\<close>.\<close>

definition clear_rules :: "HikariErrorManager \<Rightarrow> exc_class list \<Rightarrow> HikariErrorManager" where
  "clear_rules mgr break_on =
     mgr\<lparr>rules :=
           [([InternalServerError], on_internal_server_error),
            ([RateLimitedError], on_rate_limited_error)]
           @ (if break_on \<noteq> [] then [(break_on, on_break_on)] else [])\<rparr>"

definition HikariErrorManager_init :: "Backoff option \<Rightarrow> exc_class list \<Rightarrow> HikariErrorManager" where
  "HikariErrorManager_init handler break_on =
     clear_rules
       \<lparr> backoff_handler = (case handler of None \<Rightarrow> Backoff_init 5 | Some b \<Rightarrow> b),
         rules = [] \<rparr>
       break_on"

text \<open>
  Modelled from the spec: \<open>ErrorManager.__exit__\<close> (\<open>yuyo.backoff.ErrorManager\<close>, not under
  src/) for an exception raised in the \<open>with\<close> block: the rules are tried in registration
  order, the first rule with a matching exception class decides, and an exception that
  matches no rule is not suppressed. The result says whether the exception is suppressed.
  How the manager turns the truth value returned by a callback into that answer is the
  parameter \<open>suppresses\<close>. The spec has a rule's \<open>False\<close> and \<open>True\<close> both suppress,
  which is \<open>suppress_always\<close> below; the yuyo library suppresses exactly when the callback
  returned a false value, which is \<open>Not\<close>. Both suppress on \<open>False\<close>, and after a
  suppressed exception the loop of \<open>try_respond\<close> goes on unless the iterator was
  finished (\<open>_on_break_on\<close> finishes it before it returns \<open>False\<close>).
\<close>

fun manager_exit ::
  "(bool \<Rightarrow> bool) \<Rightarrow> (exc_class list \<times> rule_callback) list \<Rightarrow> raised \<Rightarrow> Backoff
     \<Rightarrow> bool \<times> Backoff" where
  "manager_exit suppresses [] e b = (False, b)"
| "manager_exit suppresses ((classes, callback) # rest) e b =
     (if issubclass (exc_type e) classes
      then (let (r, b') = run_callback callback e b in (suppresses r, b'))
      else manager_exit suppresses rest e b)"

text \<open>
  \<open>HikariErrorManager.try_respond\<close>. \<open>respond n\<close> is what the n-th call of
  \<open>ctx.respond\<close> does: \<open>None\<close> when it returns, the exception when it raises. The loop is
  the source's \<open>async for _ in self._backoff_handler: with self: ...; break\<close>:
  \<^item> the iterator ends: the function returns without a response having been made;
  \<^item> the call returns: \<open>break\<close>;
  \<^item> the call raises and \<open>__exit__\<close> suppresses: execution goes on after the \<open>with\<close>
    block, the \<open>break\<close> inside it was not reached, and the loop asks the iterator again;
  \<^item> the call raises and \<open>__exit__\<close> does not suppress: the exception leaves the function.
  The result records how the function ended, how many times \<open>ctx.respond\<close> was called,
  the sleeps made in between, and the backoff handler at the end.
\<close>

datatype ending = Responded | IteratorEnded | Propagated raised

record respond_result =
  ending_of :: ending
  attempts :: nat
  sleeps :: "sleep list"
  handler_after :: Backoff

function respond_loop ::
  "(bool \<Rightarrow> bool) \<Rightarrow> (exc_class list \<times> rule_callback) list \<Rightarrow> (nat \<Rightarrow> raised option)
     \<Rightarrow> Backoff \<Rightarrow> nat \<Rightarrow> sleep list \<Rightarrow> respond_result" where
  "respond_loop suppresses rs respond b n slept =
     (case anext b of
        None \<Rightarrow> \<lparr> ending_of = IteratorEnded, attempts = n, sleeps = slept, handler_after = b \<rparr>
      | Some (s, b1) \<Rightarrow>
          (let slept' = slept @ (case s of None \<Rightarrow> [] | Some d \<Rightarrow> [d])
           in case respond n of
                None \<Rightarrow>
                  \<lparr> ending_of = Responded, attempts = Suc n, sleeps = slept', handler_after = b1 \<rparr>
              | Some e \<Rightarrow>
                  (case manager_exit suppresses rs e b1 of
                     (True, b2) \<Rightarrow> respond_loop suppresses rs respond b2 (Suc n) slept'
                   | (False, b2) \<Rightarrow>
                       \<lparr> ending_of = Propagated e, attempts = Suc n, sleeps = slept',
                         handler_after = b2 \<rparr>)))"
  by pat_completeness auto
termination
proof (relation "measure (\<lambda>(suppresses, rs, respond, b, n, slept).
                   if finished b then 0 else max_retries b - retries b)", goal_cases)
  case 1
  show ?case by simp
next
  case (2 suppresses rs respond b n slept x2 s b1 slept' e x b2)
  have cb: "retries (snd (run_callback c e b0)) = retries b0
            \<and> max_retries (snd (run_callback c e b0)) = max_retries b0" for c b0
    by (cases c) (simp_all add: finish_def set_next_backoff_def)
  have ex: "retries (snd (manager_exit suppresses rs e b0)) = retries b0
            \<and> max_retries (snd (manager_exit suppresses rs e b0)) = max_retries b0" for b0
    using cb by (induction rs) (auto simp: split_def Let_def)
  from 2 have b2: "b2 = snd (manager_exit suppresses rs e b1)"
    by (metis snd_conv)
  from 2 have nx: "anext b = Some (s, b1)" by simp
  then have "\<not> finished b" "retries b < max_retries b"
    "retries b1 = Suc (retries b)" "max_retries b1 = max_retries b"
    by (auto simp: anext_def split: if_splits)
  with ex[of b1] b2 show ?case by auto
qed

definition try_respond ::
  "(bool \<Rightarrow> bool) \<Rightarrow> HikariErrorManager \<Rightarrow> (nat \<Rightarrow> raised option) \<Rightarrow> respond_result" where
  "try_respond suppresses mgr respond =
     respond_loop suppresses (rules mgr) respond (reset (backoff_handler mgr)) 0 []"


text \<open>
  \<open>AIOHTTPStatusHandler._on_client_response_error\<close>, the single rule callback of the
  HTTP-status variant. The exception carries the status and the \<open>Retry-After\<close> header:
  missing, a number that \<open>float\<close> parses, or text on which \<open>float\<close> raises
  \<open>ValueError\<close>. \<open>on_404\<close> is \<open>None\<close>, a message, or a callback (here: what calling it
  does, return or raise).
\<close>

datatype retry_after_header = NoHeader | HeaderSeconds real | HeaderMalformed

datatype on_404_setting = No404 | Message404 string | Callback404 "exn option"

record ClientResponseError =
  status :: int
  retry_after_hdr :: retry_after_header

record AIOHTTPStatusHandler =
  status_backoff_handler :: Backoff
  break_on_statuses :: "int set"
  on_404 :: on_404_setting

definition on_client_response_error ::
  "AIOHTTPStatusHandler \<Rightarrow> ClientResponseError \<Rightarrow> (exn + bool) \<times> Backoff" where
  "on_client_response_error h e =
     (let b = status_backoff_handler h in
      if status e \<in> break_on_statuses h then (Inr False, finish b)
      else if status e \<ge> 500 then (Inr False, b)
      else if status e = 429 then
        (case retry_after_hdr e of
           NoHeader \<Rightarrow> (Inr False, b)
         | HeaderMalformed \<Rightarrow> (Inl ValueError, b)
         | HeaderSeconds seconds \<Rightarrow>
             (Inr False, if seconds \<le> 10 then set_next_backoff b seconds else b))
      else if on_404 h \<noteq> No404 \<and> status e = 404 then
        (case on_404 h of
           Message404 m \<Rightarrow> (Inl (CommandError m), b)
         | Callback404 None \<Rightarrow> (Inr True, b)
         | Callback404 (Some raised_by_callback) \<Rightarrow> (Inl raised_by_callback, b)
         | No404 \<Rightarrow> (Inr True, b))
      else (Inr True, b))"

text \<open>
  Notions for stating what \<open>try_respond\<close> does over a run of failures. A failure is
  retriable when its rule makes the manager suppress it and leaves the iterator running:
  an internal server error, a rate limit whose hint is at most 10 seconds, and, with a
  manager that also suppresses on \<open>True\<close>, a rate limit with a longer hint.
  \<open>pending respond n\<close> is the overriding delay in place before attempt \<open>n\<close>: the hint of
  the rate limit that attempt \<open>n - 1\<close> raised, if it raised one with a hint of at most
  10 seconds; and \<open>sleep_before respond n\<close> is the sleep expected before attempt \<open>n\<close>.
\<close>

definition retriable :: "(bool \<Rightarrow> bool) \<Rightarrow> raised \<Rightarrow> bool" where
  "retriable suppresses e \<longleftrightarrow>
     exc_type e = InternalServerError
     \<or> (exc_type e = RateLimitedError \<and> (retry_after e \<le> 10 \<or> suppresses True))"

definition pending :: "(nat \<Rightarrow> raised option) \<Rightarrow> nat \<Rightarrow> real option" where
  "pending respond n =
     (if n = 0 then None
      else (case respond (n - 1) of
              None \<Rightarrow> None
            | Some e \<Rightarrow>
                if exc_type e = RateLimitedError \<and> retry_after e \<le> 10
                then Some (retry_after e) else None))"

definition sleep_before :: "(nat \<Rightarrow> raised option) \<Rightarrow> nat \<Rightarrow> sleep" where
  "sleep_before respond n =
     (case pending respond n of Some seconds \<Rightarrow> Hinted seconds | None \<Rightarrow> Computed n)"

section \<open>Example objects\<close>

text \<open>Concrete messages, commands, clusters and clients on which the model is run below.\<close>

definition always_raises :: "exn \<Rightarrow> CheckLikeT" where
  "always_raises e = Callable (\<lambda>ctx. (Raises e, ctx))"

definition always_returns :: "bool \<Rightarrow> CheckLikeT" where
  "always_returns r = Callable (\<lambda>ctx. (Returns r, ctx))"

definition ping_message :: Message where
  "ping_message = \<lparr> author_id = 7, guild_id = None, channel_id = 1, msg_content = ''!ping now'' \<rparr>"

definition ping_context :: Context where
  "ping_context = Context_init ''ping now'' ping_message ''!'' PREFIX"

definition ping_command :: Command where
  "ping_command = Command_init 1 ''ping'' None [] 0"

definition admin_ping_command :: Command where
  "admin_ping_command = Command_init 2 ''ping_admin'' (Some ''ping'') [] 2"

definition empty_alias_command :: Command where
  "empty_alias_command = Command_init 3 ''about'' None [Some []] 0"

definition empty_cluster :: CommandCluster where
  "empty_cluster = \<lparr> cluster_ref = 10, members = [], cluster_commands = [], warnings = [] \<rparr>"

definition ping_cluster :: CommandCluster where
  "ping_cluster =
     \<lparr> cluster_ref = 11, members = [(''ping'', ping_command)], cluster_commands = [],
       warnings = [] \<rparr>"

definition example_client :: "Command list \<Rightarrow> CommandClient" where
  "example_client cmds =
     \<lparr> cluster_ref = 0, members = [], cluster_commands = cmds, warnings = [],
       access_levels = [7 \<mapsto> 1], prefixes = [''?'', ''!''], get_guild_prefix = None,
       clusters = [] \<rparr>"

definition server_error :: raised where
  "server_error = \<lparr> exc_type = InternalServerError, retry_after = 0 \<rparr>"

definition rate_limited :: "real \<Rightarrow> raised" where
  "rate_limited seconds = \<lparr> exc_type = RateLimitedError, retry_after = seconds \<rparr>"

definition not_found :: raised where
  "not_found = \<lparr> exc_type = NotFoundError, retry_after = 0 \<rparr>"

definition always_failing :: "raised \<Rightarrow> nat \<Rightarrow> raised option" where
  "always_failing e n = Some e"

definition failing_once :: "raised \<Rightarrow> nat \<Rightarrow> raised option" where
  "failing_once e n = (if n = 0 then Some e else None)"

definition suppress_always :: "bool \<Rightarrow> bool" where
  "suppress_always r = True"

definition guild_client :: CommandClient where
  "guild_client =
     (example_client [])\<lparr>get_guild_prefix := Some (\<lambda>g. if g = 5 then Some ''$'' else None)\<rparr>"

definition guild_message :: Message where
  "guild_message = \<lparr> author_id = 7, guild_id = Some 5, channel_id = 1, msg_content = ''$!ping'' \<rparr>"

definition interrupted_command :: Command where
  "interrupted_command =
     register_check (Command_init 4 ''stop'' (Some ''ping'') [] 0)
       (always_raises (BaseOnly ''KeyboardInterrupt''))"

definition clustered_client :: CommandClient where
  "clustered_client =
     (example_client [admin_ping_command])
       \<lparr>clusters := [(''PingCluster'', ping_cluster\<lparr>cluster_commands := [ping_command]\<rparr>)]\<rparr>"

definition empty_prefix_client :: CommandClient where
  "empty_prefix_client = (example_client [])\<lparr>get_guild_prefix := Some (\<lambda>g. Some [])\<rparr>"

section \<open>Prefixes and triggers\<close>

text \<open>
  \<open>startswith\<close> is the literal-prefix relation, and the loops over triggers and prefixes
  return the first entry, in list order, that is a prefix of the text.
\<close>



lemma startswith_iff_prefix: "startswith s p \<longleftrightarrow> prefix p s"
  by (induction s p rule: startswith.induct) auto

lemma first_trigger_None: "first_trigger ts s = None \<longleftrightarrow> (\<forall>t \<in> set ts. \<not> prefix t s)"
  by (induction ts) (auto simp: startswith_iff_prefix)

lemma first_trigger_Some:
  "first_trigger ts s = Some t \<Longrightarrow>
     \<exists>i < length ts. ts ! i = t \<and> prefix t s \<and> (\<forall>j < i. \<not> prefix (ts ! j) s)"
proof (induction ts)
  case Nil
  then show ?case by simp
next
  case (Cons a ts)
  show ?case
  proof (cases "startswith s a")
    case True
    with Cons.prems have "a = t" by simp
    with True have "(a # ts) ! 0 = t \<and> prefix t s \<and> (\<forall>j < 0. \<not> prefix ((a # ts) ! j) s)"
      by (simp add: startswith_iff_prefix)
    then show ?thesis by blast
  next
    case False
    with Cons.prems have "first_trigger ts s = Some t" by simp
    from Cons.IH[OF this] obtain i where i: "i < length ts" "ts ! i = t" "prefix t s"
      "\<forall>j < i. \<not> prefix (ts ! j) s" by blast
    have "\<forall>j < Suc i. \<not> prefix ((a # ts) ! j) s"
    proof (intro allI impI)
      fix j assume "j < Suc i"
      then show "\<not> prefix ((a # ts) ! j) s"
        using False i(4) by (cases j) (auto simp: startswith_iff_prefix)
    qed
    with i have "Suc i < length (a # ts) \<and> (a # ts) ! Suc i = t \<and> prefix t s
        \<and> (\<forall>j < Suc i. \<not> prefix ((a # ts) ! j) s)" by simp
    then show ?thesis by blast
  qed
qed

lemma first_trigger_first:
  "i < length ts \<Longrightarrow> prefix (ts ! i) s \<Longrightarrow> (\<forall>j < i. \<not> prefix (ts ! j) s)
     \<Longrightarrow> first_trigger ts s = Some (ts ! i)"
proof (induction ts arbitrary: i)
  case Nil
  then show ?case by simp
next
  case (Cons a ts)
  show ?case
  proof (cases i)
    case 0
    with Cons.prems show ?thesis by (simp add: startswith_iff_prefix)
  next
    case (Suc k)
    with Cons.prems have "\<not> prefix a s" by auto
    moreover have "first_trigger ts s = Some (ts ! k)"
      using Cons.prems Suc by (intro Cons.IH) auto
    ultimately show ?thesis using Suc by (simp add: startswith_iff_prefix)
  qed
qed

lemma first_prefix_eq: "first_prefix ps s = first_trigger ps s"
  by (induction ps) auto

lemma prefix_from_context_eq:
  "prefix_from_context ts ctx =
     (case first_trigger ts (content ctx) of
        None \<Rightarrow> (False, ctx)
      | Some t \<Rightarrow> (True, set_command_trigger ctx t))"
  by (induction ts) auto

lemma call_check_command:
  assumes "\<forall>f x. chk = Callable f \<longrightarrow> command (snd (f x)) = command x"
  shows "command (snd (call_check cmd chk ctx)) = command ctx"
  using assms
  by (cases chk)
     (auto simp: call_check_def Command_check_prefix_from_context_def prefix_from_context_eq
        set_command_trigger_def split: option.splits)

lemma check_loop_command:
  assumes "\<forall>f x. Callable f \<in> set chks \<longrightarrow> command (snd (f x)) = command x"
    and "command ctx = Some r"
    and "\<forall>c \<in> set called. command (fst c) = Some r"
    and "check_loop cmd chks result called ctx = (res, called', ctx')"
  shows "(\<forall>c \<in> set called'. command (fst c) = Some r) \<and> command ctx' = Some r"
  using assms
proof (induction chks arbitrary: result called ctx)
  case Nil
  then show ?case by simp
next
  case (Cons chk rest)
  obtain out ctx1 where cc: "call_check cmd chk ctx = (out, ctx1)" by (cases "call_check cmd chk ctx")
  have "command (snd (call_check cmd chk ctx)) = command ctx"
    using Cons.prems(1) by (intro call_check_command) auto
  with cc Cons.prems(2) have c1: "command ctx1 = Some r" by simp
  have fr: "\<forall>f x. Callable f \<in> set rest \<longrightarrow> command (snd (f x)) = command x"
    using Cons.prems(1) by auto
  have lg: "\<forall>c \<in> set (called @ [(ctx, out)]). command (fst c) = Some r"
    using Cons.prems(2,3) by auto
  show ?case
  proof (cases out)
    case (Returns b)
    show ?thesis
    proof (cases b)
      case True
      with Returns cc Cons.prems(4)
      have "check_loop cmd rest True (called @ [(ctx, out)]) ctx1 = (res, called', ctx')" by simp
      from Cons.IH[OF fr c1 lg this] show ?thesis .
    next
      case False
      with Returns cc Cons.prems(4) have "called' = called @ [(ctx, out)]" "ctx' = ctx1" by auto
      with lg c1 show ?thesis by simp
    qed
  next
    case (Raises e)
    show ?thesis
    proof (cases "is_Exception e")
      case True
      with Raises cc Cons.prems(4)
      have "check_loop cmd rest False (called @ [(ctx, out)]) ctx1 = (res, called', ctx')" by simp
      from Cons.IH[OF fr c1 lg this] show ?thesis .
    next
      case False
      with Raises cc Cons.prems(4) have "called' = called @ [(ctx, out)]" "ctx' = ctx1" by auto
      with lg c1 show ?thesis by simp
    qed
  qed
qed


lemma check_loop_trigger:
  assumes "\<forall>f x. Callable f \<in> set chks \<longrightarrow>
             content (snd (f x)) = content x \<and> triggering_name (snd (f x)) = triggering_name x"
    and "triggering_name ctx = Some t"
    and "first_trigger (triggers cmd) (content ctx) = Some t"
    and "check_loop cmd chks result called ctx = (res, called', ctx')"
  shows "triggering_name ctx' = Some t"
  using assms
proof (induction chks arbitrary: result called ctx)
  case Nil
  then show ?case by simp
next
  case (Cons chk rest)
  obtain out ctx1 where cc: "call_check cmd chk ctx = (out, ctx1)" by (cases "call_check cmd chk ctx")
  have keep: "content ctx1 = content ctx \<and> triggering_name ctx1 = Some t"
  proof (cases chk)
    case BoundCheckPrefix
    with cc Cons.prems(2,3) show ?thesis
      by (auto simp: call_check_def Command_check_prefix_from_context_def prefix_from_context_eq
            set_command_trigger_def)
  next
    case (Callable f)
    with Cons.prems(1) have "content (snd (f ctx)) = content ctx"
      "triggering_name (snd (f ctx)) = triggering_name ctx" by auto
    with Callable cc Cons.prems(2) show ?thesis by (simp add: call_check_def)
  qed
  have fr: "\<forall>f x. Callable f \<in> set rest \<longrightarrow>
             content (snd (f x)) = content x \<and> triggering_name (snd (f x)) = triggering_name x"
    using Cons.prems(1) by auto
  from keep Cons.prems(3) have ft: "first_trigger (triggers cmd) (content ctx1) = Some t" by simp
  from keep have tn: "triggering_name ctx1 = Some t" by simp
  show ?case
  proof (cases out)
    case (Returns b)
    show ?thesis
    proof (cases b)
      case True
      with Returns cc Cons.prems(4)
      have "check_loop cmd rest True (called @ [(ctx, out)]) ctx1 = (res, called', ctx')" by simp
      from Cons.IH[OF fr tn ft this] show ?thesis .
    next
      case False
      with Returns cc Cons.prems(4) have "ctx' = ctx1" by auto
      with tn show ?thesis by simp
    qed
  next
    case (Raises e)
    show ?thesis
    proof (cases "is_Exception e")
      case True
      with Raises cc Cons.prems(4)
      have "check_loop cmd rest False (called @ [(ctx, out)]) ctx1 = (res, called', ctx')" by simp
      from Cons.IH[OF fr tn ft this] show ?thesis .
    next
      case False
      with Raises cc Cons.prems(4) have "ctx' = ctx1" by auto
      with tn show ?thesis by simp
    qed
  qed
qed

lemma first_trigger_exists:
  "\<exists>t \<in> set ts. prefix t s \<Longrightarrow> \<exists>t. first_trigger ts s = Some t"
  using first_trigger_None[of ts s] by (cases "first_trigger ts s") auto

lemmas example_defs = Command_check_def Command_init_def register_check_def
  call_check_def Command_check_prefix_from_context_def set_command_def set_command_trigger_def
  Context_init_def generate_trigger_def always_raises_def always_returns_def
  ping_message_def ping_context_def ping_command_def admin_ping_command_def
  empty_alias_command_def

text \<open>
  C10. Every call of \<open>Command.check\<close> stores the checked command in \<open>ctx.command\<close> before
  any predicate is called: every predicate is called with a context that already carries it.
  The assignment is still there when \<open>check\<close> is over, whether it returned true or false
  or a predicate raised. When one of the command's triggers is a prefix of \<open>ctx.content\<close>,
  the built-in prefix predicate returns true and stores the first such trigger in
  \<open>ctx.triggering_name\<close>; with the built-in predicate first in the check list, as
  \<open>__init__\<close> puts it, that trigger is still there at the end, also when a later check fails.
  The registered callables are taken not to write the slots \<open>command\<close>, \<open>content\<close> and
  \<open>triggering_name\<close> themselves.
\<close>

theorem Command_check_tags_context:
  assumes run: "Command_check cmd ctx = (res, called, ctx')"
    and frame: "\<forall>f x. Callable f \<in> set (checks cmd) \<longrightarrow>
                 command (snd (f x)) = command x \<and> content (snd (f x)) = content x
                 \<and> triggering_name (snd (f x)) = triggering_name x"
  shows "(\<forall>c \<in> set called. command (fst c) = Some (ref cmd))
       \<and> command ctx' = Some (ref cmd)
       \<and> ((\<exists>t \<in> set (triggers cmd). prefix t (content ctx)) \<longrightarrow>
            (\<exists>i < length (triggers cmd).
               prefix (triggers cmd ! i) (content ctx)
               \<and> (\<forall>j < i. \<not> prefix (triggers cmd ! j) (content ctx))
               \<and> Command_check_prefix_from_context cmd ctx
                   = (True, ctx\<lparr>triggering_name := Some (triggers cmd ! i)\<rparr>)
               \<and> (\<forall>rest. checks cmd = BoundCheckPrefix # rest \<longrightarrow>
                     triggering_name ctx' = Some (triggers cmd ! i))))"
proof (intro conjI impI)
  have fc: "\<forall>f x. Callable f \<in> set (checks cmd) \<longrightarrow> command (snd (f x)) = command x"
    using frame by blast
  have c0: "command (set_command ctx (ref cmd)) = Some (ref cmd)" by (simp add: set_command_def)
  have l0: "\<forall>c \<in> set ([] :: (Context \<times> outcome) list). command (fst c) = Some (ref cmd)" by simp
  from run have lp: "check_loop cmd (checks cmd) False [] (set_command ctx (ref cmd))
      = (res, called, ctx')" by (simp add: Command_check_def)
  from check_loop_command[OF fc c0 l0 lp]
  show "\<forall>c \<in> set called. command (fst c) = Some (ref cmd)" and "command ctx' = Some (ref cmd)"
    by blast+
next
  assume "\<exists>t \<in> set (triggers cmd). prefix t (content ctx)"
  from first_trigger_exists[OF this] obtain t
    where ft: "first_trigger (triggers cmd) (content ctx) = Some t" by blast
  from first_trigger_Some[OF ft] obtain i where i: "i < length (triggers cmd)"
    "triggers cmd ! i = t" "prefix t (content ctx)"
    "\<forall>j < i. \<not> prefix (triggers cmd ! j) (content ctx)" by blast
  have pc: "Command_check_prefix_from_context cmd ctx = (True, ctx\<lparr>triggering_name := Some t\<rparr>)"
    using ft by (simp add: Command_check_prefix_from_context_def prefix_from_context_eq
        set_command_trigger_def)
  have tail: "triggering_name ctx' = Some t" if cs: "checks cmd = BoundCheckPrefix # rest" for rest
  proof -
    let ?c1 = "set_command ctx (ref cmd)"
    let ?c2 = "set_command_trigger ?c1 t"
    have ft1: "first_trigger (triggers cmd) (content ?c1) = Some t"
      using ft by (simp add: set_command_def)
    have cc: "call_check cmd BoundCheckPrefix ?c1 = (Returns True, ?c2)"
      using ft1 by (simp add: call_check_def Command_check_prefix_from_context_def
          prefix_from_context_eq)
    from run cs cc have lp: "check_loop cmd rest True [(?c1, Returns True)] ?c2 = (res, called, ctx')"
      by (simp add: Command_check_def)
    have fr: "\<forall>f x. Callable f \<in> set rest \<longrightarrow>
             content (snd (f x)) = content x \<and> triggering_name (snd (f x)) = triggering_name x"
      using frame cs by auto
    have tn: "triggering_name ?c2 = Some t" by (simp add: set_command_trigger_def)
    have ft2: "first_trigger (triggers cmd) (content ?c2) = Some t"
      using ft by (simp add: set_command_def set_command_trigger_def)
    from check_loop_trigger[OF fr tn ft2 lp] show ?thesis .
  qed
  from i pc tail
  show "\<exists>i < length (triggers cmd).
               prefix (triggers cmd ! i) (content ctx)
               \<and> (\<forall>j < i. \<not> prefix (triggers cmd ! j) (content ctx))
               \<and> Command_check_prefix_from_context cmd ctx
                   = (True, ctx\<lparr>triggering_name := Some (triggers cmd ! i)\<rparr>)
               \<and> (\<forall>rest. checks cmd = BoundCheckPrefix # rest \<longrightarrow>
                     triggering_name ctx' = Some (triggers cmd ! i))"
    by blast
qed

theorem Command_check_tags_context_witness:
  "Command_check (register_check ping_command (always_returns False)) ping_context
     = (Inr False,
        [(ping_context\<lparr>command := Some 1\<rparr>, Returns True),
         (ping_context\<lparr>command := Some 1, triggering_name := Some ''ping''\<rparr>, Returns False)],
        ping_context\<lparr>command := Some 1, triggering_name := Some ''ping''\<rparr>)
   \<and> command (ping_context\<lparr>command := Some 1, triggering_name := Some ''ping''\<rparr>)
       = Some (ref (register_check ping_command (always_returns False)))
   \<and> triggering_name (ping_context\<lparr>command := Some 1, triggering_name := Some ''ping''\<rparr>)
       = Some ''ping''"
  using Command_check_tags_context
    [of "register_check ping_command (always_returns False)" ping_context "Inr False"
        "[(ping_context\<lparr>command := Some 1\<rparr>, Returns True),
         (ping_context\<lparr>command := Some 1, triggering_name := Some ''ping''\<rparr>, Returns False)]"
        "ping_context\<lparr>command := Some 1, triggering_name := Some ''ping''\<rparr>"]
  by (simp add: example_defs)

section \<open>The check loop and exceptions\<close>

text \<open>
  What leaves \<open>Command.check\<close> as an exception is never derived from \<open>Exception\<close>, and
  the value it returns is decided by the last predicate that was called.
\<close>


lemma check_loop_Inl:
  "check_loop cmd chks result called ctx = (Inl e, called', ctx') \<Longrightarrow> \<not> is_Exception e"
proof (induction chks arbitrary: result called ctx)
  case Nil
  then show ?case by simp
next
  case (Cons chk rest)
  obtain out ctx1 where cc: "call_check cmd chk ctx = (out, ctx1)" by (cases "call_check cmd chk ctx")
  show ?case
  proof (cases out)
    case (Returns b)
    with cc Cons.prems Cons.IH show ?thesis by (cases b) auto
  next
    case (Raises e')
    with cc Cons.prems Cons.IH show ?thesis by (cases "is_Exception e'") auto
  qed
qed

lemma check_loop_last_raise:
  assumes "check_loop cmd chks result called ctx = (res, called', ctx')"
  shows "\<exists>more. called' = called @ more
           \<and> (more = [] \<longrightarrow> res = Inr result)
           \<and> (more \<noteq> [] \<longrightarrow> (\<forall>c e. last more = (c, Raises e) \<and> is_Exception e \<longrightarrow> res = Inr False))
           \<and> (more \<noteq> [] \<longrightarrow> (res = Inr True \<longleftrightarrow> snd (last more) = Returns True))"
  using assms
proof (induction chks arbitrary: result called ctx)
  case Nil
  then show ?case by simp
next
  case (Cons chk rest)
  obtain out ctx1 where cc: "call_check cmd chk ctx = (out, ctx1)" by (cases "call_check cmd chk ctx")
  have stop: ?case if "res = r0" "called' = called @ [(ctx, out)]"
      "\<forall>e. out = Raises e \<and> is_Exception e \<longrightarrow> r0 = Inr False"
      "r0 = Inr True \<longleftrightarrow> out = Returns True" for r0
    using that by simp
  have go: ?case
    if lp: "check_loop cmd rest r1 (called @ [(ctx, out)]) ctx1 = (res, called', ctx')"
      and r1a: "\<forall>e. out = Raises e \<and> is_Exception e \<longrightarrow> \<not> r1"
      and r1b: "r1 \<longleftrightarrow> out = Returns True" for r1
  proof -
    from Cons.IH[OF lp] obtain more where m: "called' = (called @ [(ctx, out)]) @ more"
      "more = [] \<longrightarrow> res = Inr r1"
      "more \<noteq> [] \<longrightarrow> (\<forall>c e. last more = (c, Raises e) \<and> is_Exception e \<longrightarrow> res = Inr False)"
      "more \<noteq> [] \<longrightarrow> (res = Inr True \<longleftrightarrow> snd (last more) = Returns True)"
      by blast
    let ?m = "(ctx, out) # more"
    have "called' = called @ ?m" using m(1) by simp
    moreover have "\<forall>c e. last ?m = (c, Raises e) \<and> is_Exception e \<longrightarrow> res = Inr False"
      using m(2,3) r1a by (cases "more = []") auto
    moreover have "res = Inr True \<longleftrightarrow> snd (last ?m) = Returns True"
      using m(2,4) r1b by (cases "more = []") auto
    ultimately show ?thesis by blast
  qed
  show ?case
  proof (cases out)
    case (Returns b)
    show ?thesis
    proof (cases b)
      case True
      with Returns cc Cons.prems
      have "check_loop cmd rest True (called @ [(ctx, out)]) ctx1 = (res, called', ctx')" by simp
      then show ?thesis using Returns True by (intro go[of True]) auto
    next
      case False
      with Returns cc Cons.prems have "res = Inr False" "called' = called @ [(ctx, out)]" by auto
      then show ?thesis using Returns False by (intro stop[of "Inr False"]) auto
    qed
  next
    case (Raises e')
    show ?thesis
    proof (cases "is_Exception e'")
      case True
      with Raises cc Cons.prems
      have "check_loop cmd rest False (called @ [(ctx, out)]) ctx1 = (res, called', ctx')" by simp
      then show ?thesis using Raises by (intro go[of False]) auto
    next
      case False
      with Raises cc Cons.prems have "res = Inl e'" "called' = called @ [(ctx, out)]" by auto
      then show ?thesis using Raises False by (intro stop[of "Inl e'"]) auto
    qed
  qed
qed

lemma Command_check_true_iff_last:
  assumes "Command_check cmd ctx = (res, called, ctx')"
  shows "res = Inr True \<longleftrightarrow> called \<noteq> [] \<and> snd (last called) = Returns True"
proof -
  from assms have "check_loop cmd (checks cmd) False [] (set_command ctx (ref cmd))
      = (res, called, ctx')" by (simp add: Command_check_def)
  from check_loop_last_raise[OF this] show ?thesis by auto
qed

text \<open>
  C1 (the code departs from the claim). A command whose checks are the built-in prefix
  predicate, a predicate that raises and a predicate that returns true, checked against a
  context whose content starts with its trigger: all three predicates are called, the
  second one raises, and \<open>Command.check\<close> returns true. The \<open>except\<close> branch sets
  \<open>result = False\<close> without leaving the loop, and the next predicate overwrites it.
\<close>

theorem Command_check_raise_then_true:
  "map snd (fst (snd (Command_check
      (register_check (register_check ping_command (always_raises (OtherException ''boom'')))
         (always_returns True))
      ping_context)))
     = [Returns True, Raises (OtherException ''boom''), Returns True]
   \<and> fst (Command_check
      (register_check (register_check ping_command (always_raises (OtherException ''boom'')))
         (always_returns True))
      ping_context) = Inr True"
  by (simp add: example_defs)
text \<open>
  C5, as the claim states it, fails: a predicate registered after the built-in one raises
  \<open>PermissionError\<close>, and \<open>Command.check\<close> returns false instead of raising it.
\<close>

theorem Command_check_PermissionError_counterexample:
  "map snd (fst (snd (Command_check
      (register_check ping_command (always_raises PermissionError)) ping_context)))
     = [Returns True, Raises PermissionError]
   \<and> fst (Command_check (register_check ping_command (always_raises PermissionError))
        ping_context) = Inr False
   \<and> fst (Command_check (register_check ping_command (always_raises PermissionError))
        ping_context) \<noteq> Inl PermissionError"
  by (simp add: example_defs)

text \<open>
  C5, amended. \<open>PermissionError\<close> is caught like every other exception derived from
  \<open>Exception\<close>: no such exception ever leaves \<open>Command.check\<close>, and when the last
  predicate called raised one, \<open>check\<close> returns false.
\<close>

theorem Command_check_catches_Exception:
  assumes "Command_check cmd ctx = (res, called, ctx')"
  shows "(\<forall>e. is_Exception e \<longrightarrow> res \<noteq> Inl e)
       \<and> (\<forall>c e. called \<noteq> [] \<and> last called = (c, Raises e) \<and> is_Exception e \<longrightarrow> res = Inr False)"
proof -
  from assms have lp: "check_loop cmd (checks cmd) False [] (set_command ctx (ref cmd))
      = (res, called, ctx')" by (simp add: Command_check_def)
  have "\<forall>e. is_Exception e \<longrightarrow> res \<noteq> Inl e"
    using check_loop_Inl lp by blast
  moreover have "\<forall>c e. called \<noteq> [] \<and> last called = (c, Raises e) \<and> is_Exception e \<longrightarrow> res = Inr False"
    using check_loop_last_raise[OF lp] by auto
  ultimately show ?thesis by blast
qed

theorem Command_check_catches_Exception_witness:
  "Command_check
     (register_check (register_check ping_command (always_returns True))
        (always_raises PermissionError))
     ping_context
     = (Inr False,
        [(ping_context\<lparr>command := Some 1\<rparr>, Returns True),
         (ping_context\<lparr>command := Some 1, triggering_name := Some ''ping''\<rparr>, Returns True),
         (ping_context\<lparr>command := Some 1, triggering_name := Some ''ping''\<rparr>,
          Raises PermissionError)],
        ping_context\<lparr>command := Some 1, triggering_name := Some ''ping''\<rparr>)
   \<and> is_Exception PermissionError
   \<and> (Inr False :: exn + bool) \<noteq> Inl PermissionError"
  using Command_check_catches_Exception
    [of "register_check (register_check ping_command (always_returns True))
           (always_raises PermissionError)"
        ping_context "Inr False"
        "[(ping_context\<lparr>command := Some 1\<rparr>, Returns True),
         (ping_context\<lparr>command := Some 1, triggering_name := Some ''ping''\<rparr>, Returns True),
         (ping_context\<lparr>command := Some 1, triggering_name := Some ''ping''\<rparr>,
          Raises PermissionError)]"
        "ping_context\<lparr>command := Some 1, triggering_name := Some ''ping''\<rparr>"]
  by (simp add: example_defs)

section \<open>Clusters: lookup by name and binding\<close>

lemma command_from_name_loop_commands:
  assumes "\<forall>c \<in> set cmds. [] \<notin> set (triggers c)"
  shows "map fst (command_from_name_loop cmds s)
           = filter (\<lambda>c. \<exists>t \<in> set (triggers c). prefix t s) cmds"
  using assms
proof (induction cmds)
  case Nil
  then show ?case by simp
next
  case (Cons c cmds)
  then have IH: "map fst (command_from_name_loop cmds s)
           = filter (\<lambda>c. \<exists>t \<in> set (triggers c). prefix t s) cmds" by simp
  show ?case
  proof (cases "first_trigger (triggers c) s")
    case None
    then have "\<not> (\<exists>t \<in> set (triggers c). prefix t s)" by (simp add: first_trigger_None)
    with None IH show ?thesis by (simp add: Command_check_prefix_def)
  next
    case (Some t)
    from first_trigger_Some[OF Some] have "t \<in> set (triggers c)" "prefix t s" by auto
    moreover from this Cons.prems have "t \<noteq> []" by auto
    ultimately show ?thesis using Some IH by (auto simp: Command_check_prefix_def)
  qed
qed

lemma command_from_name_loop_trigger:
  "(c, t) \<in> set (command_from_name_loop cmds s) \<Longrightarrow> first_trigger (triggers c) s = Some t"
  by (induction cmds) (auto simp: Command_check_prefix_def split: option.splits if_splits)

text \<open>
  C7, as the claim states it, fails: a command with an empty-string alias has a declared
  trigger that is a literal prefix of the content, and \<open>get_command_from_name\<close> yields
  nothing for it, because the matched trigger is tested for its truth value.
\<close>

theorem get_command_from_name_empty_trigger_counterexample:
  "[] \<in> set (triggers empty_alias_command)
   \<and> prefix [] ''ping now''
   \<and> get_command_from_name (empty_cluster\<lparr>cluster_commands := [empty_alias_command]\<rparr>) ''ping now''
       = []"
  by (simp add: example_defs empty_cluster_def get_command_from_name_def Command_check_prefix_def)

text \<open>
  C7, amended. For every cluster whose commands declare no empty trigger and every content
  string, \<open>get_command_from_name\<close> yields, in the stored command order, one pair for every
  command that has a declared trigger which is a literal prefix of the content (all of
  them, not only the first), and the trigger of each pair is the first trigger, in the
  command's declared order, that is a prefix of the content.
\<close>

theorem get_command_from_name_all_matches:
  assumes "\<forall>c \<in> set (cluster_commands cl). [] \<notin> set (triggers c)"
  shows "map fst (get_command_from_name cl s)
           = filter (\<lambda>c. \<exists>t \<in> set (triggers c). prefix t s) (cluster_commands cl)
       \<and> (\<forall>(c, t) \<in> set (get_command_from_name cl s).
            \<exists>i < length (triggers c). triggers c ! i = t \<and> prefix t s
               \<and> (\<forall>j < i. \<not> prefix (triggers c ! j) s))"
proof
  show "map fst (get_command_from_name cl s)
           = filter (\<lambda>c. \<exists>t \<in> set (triggers c). prefix t s) (cluster_commands cl)"
    unfolding get_command_from_name_def by (rule command_from_name_loop_commands[OF assms])
  show "\<forall>(c, t) \<in> set (get_command_from_name cl s).
            \<exists>i < length (triggers c). triggers c ! i = t \<and> prefix t s
               \<and> (\<forall>j < i. \<not> prefix (triggers c ! j) s)"
    unfolding get_command_from_name_def
    using command_from_name_loop_trigger first_trigger_Some by blast
qed

theorem get_command_from_name_all_matches_witness:
  "get_command_from_name (empty_cluster\<lparr>cluster_commands := [admin_ping_command, ping_command]\<rparr>)
      ''ping now''
     = [(admin_ping_command, ''ping''), (ping_command, ''ping'')]
   \<and> filter (\<lambda>c. \<exists>t \<in> set (triggers c). prefix t ''ping now'') [admin_ping_command, ping_command]
     = [admin_ping_command, ping_command]"
  using get_command_from_name_all_matches
    [of "empty_cluster\<lparr>cluster_commands := [admin_ping_command, ping_command]\<rparr>" "''ping now''"]
  by (simp add: example_defs empty_cluster_def get_command_from_name_def Command_check_prefix_def)

lemma bind_loop_length:
  "length (cluster_commands (bind_loop ms cl)) = length (cluster_commands cl) + length ms"
  by (induction ms cl rule: bind_loop.induct) (simp_all add: bind_cluster_def Let_def)

lemma sort_by_name_reversed_length: "length (sort_by_name_reversed cmds) = length cmds"
  by (simp add: sort_by_name_reversed_def)

text \<open>
  C6, as the claim states it, fails: a cluster without command members can be bound twice;
  the list that the guard inspects is still empty after the first call.
\<close>

theorem bind_commands_twice_counterexample:
  "bind_commands empty_cluster = Inr empty_cluster
   \<and> bind_commands (projr (bind_commands empty_cluster)) = Inr empty_cluster"
  by (simp add: empty_cluster_def bind_commands_def sort_by_name_reversed_def)


text \<open>
  C6, amended. Once \<open>bind_commands\<close> has completed on a cluster, a second call on the
  cluster as the first call left it fails with \<open>ValueError\<close> exactly when the cluster
  has at least one command member, that is, when the first call bound a command.
\<close>

theorem bind_commands_second_call:
  assumes "bind_commands cl = Inr cl'"
  shows "bind_commands cl' = Inl ValueError \<longleftrightarrow> members cl \<noteq> []"
proof -
  from assms have e: "cluster_commands cl = []"
    and c: "cl' = (bind_loop (members cl) cl)
              \<lparr>cluster_commands := sort_by_name_reversed (cluster_commands (bind_loop (members cl) cl))\<rparr>"
    by (auto simp: bind_commands_def Let_def split: if_splits)
  have "length (cluster_commands cl') = length (members cl)"
    using c e by (simp add: sort_by_name_reversed_length bind_loop_length)
  then have "cluster_commands cl' \<noteq> [] \<longleftrightarrow> members cl \<noteq> []" by auto
  then show ?thesis by (auto simp: bind_commands_def Let_def)
qed

theorem bind_commands_second_call_witness:
  "bind_commands ping_cluster
     = Inr (ping_cluster\<lparr>members := [],
              cluster_commands := [ping_command\<lparr>cluster := Some 11\<rparr>]\<rparr>)
   \<and> bind_commands (ping_cluster\<lparr>members := [],
              cluster_commands := [ping_command\<lparr>cluster := Some 11\<rparr>]\<rparr>) = Inl ValueError
   \<and> members ping_cluster \<noteq> []"
  using bind_commands_second_call
    [of ping_cluster "ping_cluster\<lparr>members := [],
              cluster_commands := [ping_command\<lparr>cluster := Some 11\<rparr>]\<rparr>"]
  by (simp add: ping_cluster_def bind_commands_def bind_cluster_def get_command_from_name_def
      sort_by_name_reversed_def example_defs Command_check_prefix_def)

section \<open>The client: prefix resolution, access check and dispatch\<close>

lemmas client_defs = example_client_def on_message_create_def CommandClient_check_prefix_def
  get_prefixes_def get_global_command_from_context_def access_check_def prune_content_def
  guild_client_def guild_message_def

lemmas traversal_defs = traversal_order_def check_result_def clustered_client_def
  interrupted_command_def empty_prefix_client_def ping_cluster_def

text \<open>
  C8, as the claim states it, fails: the message is from a guild, a resolver is configured
  and resolves the empty string for that guild; the empty string is a literal prefix of the
  content, but it is not tried, and \<open>check_prefix\<close> returns \<open>None\<close> for a content that
  starts with no global prefix.
\<close>

theorem check_prefix_empty_guild_prefix_counterexample:
  "guild_id (guild_message\<lparr>msg_content := ''ping''\<rparr>) = Some 5
   \<and> the (get_guild_prefix empty_prefix_client) 5 = Some []
   \<and> prefix [] (msg_content (guild_message\<lparr>msg_content := ''ping''\<rparr>))
   \<and> CommandClient_check_prefix empty_prefix_client (guild_message\<lparr>msg_content := ''ping''\<rparr>)
       = None"
  by (simp add: client_defs traversal_defs)

text \<open>
  C8, amended. \<open>check_prefix\<close> tries the prefixes that \<open>_get_prefixes\<close> returns, in order.
  When the message is from a guild, a resolver is configured and it resolves a non-empty
  prefix for that guild, these are the guild prefix followed by the global prefixes; in
  every other case (no guild, no resolver, or a resolver result of \<open>None\<close> or of the empty
  string) they are exactly the global prefixes, which are thus always among the prefixes
  tried. \<open>check_prefix\<close> returns the first prefix tried that is a literal prefix of the
  message content, and \<open>None\<close> exactly when none of them is.
\<close>

theorem check_prefix_guild_then_global:
  "(let tried = get_prefixes client (guild_id msg) in
      (\<forall>g resolver gp. guild_id msg = Some g \<and> get_guild_prefix client = Some resolver
            \<and> resolver g = Some gp \<and> gp \<noteq> [] \<longrightarrow> tried = gp # prefixes client)
    \<and> ((guild_id msg = None \<or> get_guild_prefix client = None
         \<or> (\<exists>g resolver. guild_id msg = Some g \<and> get_guild_prefix client = Some resolver
               \<and> (resolver g = None \<or> resolver g = Some []))) \<longrightarrow> tried = prefixes client)
    \<and> set (prefixes client) \<subseteq> set tried
    \<and> (CommandClient_check_prefix client msg = None
          \<longleftrightarrow> (\<forall>p \<in> set tried. \<not> prefix p (msg_content msg)))
    \<and> (\<forall>p. CommandClient_check_prefix client msg = Some p \<longrightarrow>
          (\<exists>i < length tried. tried ! i = p \<and> prefix p (msg_content msg)
              \<and> (\<forall>j < i. \<not> prefix (tried ! j) (msg_content msg)))))"
proof -
  let ?tried = "get_prefixes client (guild_id msg)"
  have a: "\<forall>g resolver gp. guild_id msg = Some g \<and> get_guild_prefix client = Some resolver
            \<and> resolver g = Some gp \<and> gp \<noteq> [] \<longrightarrow> ?tried = gp # prefixes client"
    by (auto simp: get_prefixes_def)
  have b: "(guild_id msg = None \<or> get_guild_prefix client = None
         \<or> (\<exists>g resolver. guild_id msg = Some g \<and> get_guild_prefix client = Some resolver
               \<and> (resolver g = None \<or> resolver g = Some []))) \<longrightarrow> ?tried = prefixes client"
    by (auto simp: get_prefixes_def split: option.splits)
  have c: "set (prefixes client) \<subseteq> set ?tried"
    by (auto simp: get_prefixes_def split: option.splits)
  have d: "CommandClient_check_prefix client msg = None
          \<longleftrightarrow> (\<forall>p \<in> set ?tried. \<not> prefix p (msg_content msg))"
    by (simp add: CommandClient_check_prefix_def first_prefix_eq first_trigger_None)
  have e: "\<forall>p. CommandClient_check_prefix client msg = Some p \<longrightarrow>
          (\<exists>i < length ?tried. ?tried ! i = p \<and> prefix p (msg_content msg)
              \<and> (\<forall>j < i. \<not> prefix (?tried ! j) (msg_content msg)))"
    using first_trigger_Some by (simp add: CommandClient_check_prefix_def first_prefix_eq)
  from a b c d e show ?thesis unfolding Let_def by blast
qed

theorem check_prefix_guild_then_global_witness:
  "get_prefixes guild_client (guild_id guild_message) = [''$'', ''?'', ''!'']
   \<and> CommandClient_check_prefix guild_client guild_message = Some ''$''
   \<and> prefix ''$'' (msg_content guild_message)
   \<and> CommandClient_check_prefix guild_client (guild_message\<lparr>msg_content := ''!$ping''\<rparr>)
       = Some ''!''
   \<and> CommandClient_check_prefix guild_client (guild_message\<lparr>msg_content := ''ping''\<rparr>) = None
   \<and> get_prefixes guild_client (Some 6) = [''?'', ''!'']"
  using check_prefix_guild_then_global [of guild_client guild_message]
    check_prefix_guild_then_global [of guild_client "guild_message\<lparr>msg_content := ''!$ping''\<rparr>"]
    check_prefix_guild_then_global [of guild_client "guild_message\<lparr>msg_content := ''ping''\<rparr>"]
    check_prefix_guild_then_global [of guild_client "guild_message\<lparr>guild_id := Some 6\<rparr>"]
  by (simp add: client_defs)

text \<open>
  The traversal is a single pass over the commands in traversal order, and the consumer loop
  of \<open>on_message_create\<close> stops at the first command whose check returned true and which
  passes the access check.
\<close>

lemma command_from_context_loop_append:
  "command_from_context_loop (xs @ ys) ctx =
     (case command_from_context_loop xs ctx of
        (a, Some e, c') \<Rightarrow> (a, Some e, c')
      | (a, None, c') \<Rightarrow>
          (let (b, err, c'') = command_from_context_loop ys c' in (a @ b, err, c'')))"
proof (induction xs arbitrary: ctx)
  case Nil
  then show ?case by (simp add: split_def)
next
  case (Cons x xs)
  obtain res called ctx1 where cc: "Command_check x ctx = (res, called, ctx1)"
    by (cases "Command_check x ctx") auto
  show ?case
  proof (cases res)
    case (Inl e)
    with cc show ?thesis by simp
  next
    case (Inr ok)
    obtain a err c' where r: "command_from_context_loop xs ctx1 = (a, err, c')"
      by (cases "command_from_context_loop xs ctx1") auto
    with cc Inr Cons.IH[of ctx1] show ?thesis
      by (cases err) (auto simp: split_def Let_def)
  qed
qed

lemma global_loop_concat:
  "global_loop css ctx = command_from_context_loop (concat css) ctx"
proof (induction css arbitrary: ctx)
  case Nil
  then show ?case by simp
next
  case (Cons cs css)
  obtain a err c' where r: "command_from_context_loop cs ctx = (a, err, c')"
    by (cases "command_from_context_loop cs ctx") auto
  with Cons.IH[of c'] show ?case
    by (cases err) (simp_all add: command_from_context_loop_append)
qed

lemma get_global_command_from_context_flat:
  "get_global_command_from_context client ctx
     = command_from_context_loop (traversal_order client) ctx"
  by (simp add: get_global_command_from_context_def traversal_order_def global_loop_concat)

lemma context_before_Cons:
  "context_before (c # cs) ctx (Suc k) = context_before cs (snd (snd (Command_check c ctx))) k"
  by (induction k) simp_all

lemma check_result_Cons:
  "check_result (c # cs) ctx (Suc k) = check_result cs (snd (snd (Command_check c ctx))) k"
  by (simp add: check_result_def context_before_Cons del: context_before.simps)

lemma passed_over_Cons:
  "passed_over client msg (c # cs) ctx (Suc k)
     = passed_over client msg cs (snd (snd (Command_check c ctx))) k"
  by (simp add: passed_over_def check_result_Cons)

lemma check_result_0: "check_result (c # cs) ctx 0 = fst (Command_check c ctx)"
  by (simp add: check_result_def)

lemma selection_sound:
  assumes "first_accessible client msg (fst (command_from_context_loop cmds ctx)) = Some (c, x)"
  shows "\<exists>k < length cmds. c = cmds ! k \<and> x = context_before cmds ctx (Suc k)
           \<and> check_result cmds ctx k = Inr True \<and> access_check client c msg
           \<and> (\<forall>j < k. passed_over client msg cmds ctx j)"
  using assms
proof (induction cmds arbitrary: ctx)
  case Nil
  then show ?case by simp
next
  case (Cons a cmds)
  obtain res called ctx1 where cc: "Command_check a ctx = (res, called, ctx1)"
    by (cases "Command_check a ctx") auto
  obtain ys err c' where r: "command_from_context_loop cmds ctx1 = (ys, err, c')"
    by (cases "command_from_context_loop cmds ctx1") auto
  have c1: "snd (snd (Command_check a ctx)) = ctx1" using cc by simp
  have lift: ?case
    if fa: "first_accessible client msg ys = Some (c, x)"
      and p0: "passed_over client msg (a # cmds) ctx 0"
  proof -
    from fa r have "first_accessible client msg (fst (command_from_context_loop cmds ctx1))
        = Some (c, x)" by simp
    from Cons.IH[OF this] obtain k where k: "k < length cmds" "c = cmds ! k"
      "x = context_before cmds ctx1 (Suc k)" "check_result cmds ctx1 k = Inr True"
      "access_check client c msg" "\<forall>j < k. passed_over client msg cmds ctx1 j" by blast
    have "\<forall>j < Suc k. passed_over client msg (a # cmds) ctx j"
    proof (intro allI impI)
      fix j assume "j < Suc k"
      then show "passed_over client msg (a # cmds) ctx j"
        using p0 k(6) by (cases j) (auto simp: passed_over_Cons c1)
    qed
    moreover have "x = context_before (a # cmds) ctx (Suc (Suc k))"
      using k(3) context_before_Cons[of a cmds ctx "Suc k"] c1 by simp
    moreover have "check_result (a # cmds) ctx (Suc k) = Inr True"
      using k(4) by (simp add: check_result_Cons c1)
    ultimately have "Suc k < length (a # cmds) \<and> c = (a # cmds) ! Suc k
        \<and> x = context_before (a # cmds) ctx (Suc (Suc k))
        \<and> check_result (a # cmds) ctx (Suc k) = Inr True \<and> access_check client c msg
        \<and> (\<forall>j < Suc k. passed_over client msg (a # cmds) ctx j)"
      using k(1,2,5) by simp
    then show ?thesis by blast
  qed
  show ?case
  proof (cases res)
    case (Inl e)
    with cc Cons.prems show ?thesis by simp
  next
    case (Inr ok)
    show ?thesis
    proof (cases ok)
      case False
      with Inr cc r Cons.prems have fa: "first_accessible client msg ys = Some (c, x)" by simp
      have "passed_over client msg (a # cmds) ctx 0"
        using Inr False cc by (simp add: passed_over_def check_result_0)
      from lift[OF fa this] show ?thesis .
    next
      case True
      show ?thesis
      proof (cases "access_check client a msg")
        case acc: True
        with Inr True cc r Cons.prems have "c = a" "x = ctx1" by auto
        with acc Inr True cc have "0 < length (a # cmds) \<and> c = (a # cmds) ! 0
            \<and> x = context_before (a # cmds) ctx (Suc 0)
            \<and> check_result (a # cmds) ctx 0 = Inr True \<and> access_check client c msg
            \<and> (\<forall>j < 0. passed_over client msg (a # cmds) ctx j)"
          by (simp add: check_result_0)
        then show ?thesis by blast
      next
        case nacc: False
        with Inr True cc r Cons.prems have fa: "first_accessible client msg ys = Some (c, x)"
          by simp
        have "passed_over client msg (a # cmds) ctx 0"
          using Inr True cc nacc by (simp add: passed_over_def check_result_0)
        from lift[OF fa this] show ?thesis .
      qed
    qed
  qed
qed

lemma selection_complete:
  assumes "k < length cmds" "check_result cmds ctx k = Inr True"
    "access_check client (cmds ! k) msg" "\<forall>j < k. passed_over client msg cmds ctx j"
  shows "first_accessible client msg (fst (command_from_context_loop cmds ctx))
           = Some (cmds ! k, context_before cmds ctx (Suc k))"
  using assms
proof (induction cmds arbitrary: ctx k)
  case Nil
  then show ?case by simp
next
  case (Cons a cmds)
  obtain res called ctx1 where cc: "Command_check a ctx = (res, called, ctx1)"
    by (cases "Command_check a ctx") auto
  obtain ys err c' where r: "command_from_context_loop cmds ctx1 = (ys, err, c')"
    by (cases "command_from_context_loop cmds ctx1") auto
  have c1: "snd (snd (Command_check a ctx)) = ctx1" using cc by simp
  show ?case
  proof (cases k)
    case 0
    with Cons.prems cc have "res = Inr True" "access_check client a msg"
      by (simp_all add: check_result_0)
    with cc r 0 show ?thesis by simp
  next
    case (Suc k')
    with Cons.prems have p0: "passed_over client msg (a # cmds) ctx 0" by blast
    have k': "k' < length cmds" "check_result cmds ctx1 k' = Inr True"
      "access_check client (cmds ! k') msg"
      using Cons.prems(1,2,3) Suc by (simp_all add: check_result_Cons c1)
    have "\<forall>j < k'. passed_over client msg cmds ctx1 j"
    proof (intro allI impI)
      fix j assume "j < k'"
      then have "Suc j < k" using Suc by simp
      with Cons.prems(4) have "passed_over client msg (a # cmds) ctx (Suc j)" by blast
      then show "passed_over client msg cmds ctx1 j" by (simp add: passed_over_Cons c1)
    qed
    from Cons.IH[OF k' this] r
    have fa: "first_accessible client msg ys = Some (cmds ! k', context_before cmds ctx1 (Suc k'))"
      by simp
    have cb: "context_before (a # cmds) ctx (Suc k) = context_before cmds ctx1 (Suc k')"
      using context_before_Cons[of a cmds ctx "Suc k'"] c1 Suc by simp
    from p0 cc have "res = Inr False \<or> (res = Inr True \<and> \<not> access_check client a msg)"
      by (simp add: passed_over_def check_result_0)
    then show ?thesis
      using cc r fa cb Suc by (auto simp del: context_before.simps)
  qed
qed

lemma selection_none:
  assumes "\<forall>k < length cmds. passed_over client msg cmds ctx k"
  shows "first_accessible client msg (fst (command_from_context_loop cmds ctx)) = None
       \<and> fst (snd (command_from_context_loop cmds ctx)) = None"
  using assms
proof (induction cmds arbitrary: ctx)
  case Nil
  then show ?case by simp
next
  case (Cons a cmds)
  obtain res called ctx1 where cc: "Command_check a ctx = (res, called, ctx1)"
    by (cases "Command_check a ctx") auto
  obtain ys err c' where r: "command_from_context_loop cmds ctx1 = (ys, err, c')"
    by (cases "command_from_context_loop cmds ctx1") auto
  have c1: "snd (snd (Command_check a ctx)) = ctx1" using cc by simp
  from Cons.prems have p0: "passed_over client msg (a # cmds) ctx 0" by auto
  have "\<forall>k < length cmds. passed_over client msg cmds ctx1 k"
  proof (intro allI impI)
    fix k assume "k < length cmds"
    then have "Suc k < length (a # cmds)" by simp
    with Cons.prems have "passed_over client msg (a # cmds) ctx (Suc k)" by blast
    then show "passed_over client msg cmds ctx1 k" by (simp add: passed_over_Cons c1)
  qed
  from Cons.IH[OF this] r have ih: "first_accessible client msg ys = None" "err = None" by simp_all
  from p0 cc have "res = Inr False \<or> (res = Inr True \<and> \<not> access_check client a msg)"
    by (simp add: passed_over_def check_result_0)
  then show ?case using cc r ih by auto
qed

lemma selection_raise:
  assumes "k < length cmds" "check_result cmds ctx k = Inl e"
    "\<forall>j < k. passed_over client msg cmds ctx j"
  shows "first_accessible client msg (fst (command_from_context_loop cmds ctx)) = None
       \<and> fst (snd (command_from_context_loop cmds ctx)) = Some e"
  using assms
proof (induction cmds arbitrary: ctx k)
  case Nil
  then show ?case by simp
next
  case (Cons a cmds)
  obtain res called ctx1 where cc: "Command_check a ctx = (res, called, ctx1)"
    by (cases "Command_check a ctx") auto
  obtain ys err c' where r: "command_from_context_loop cmds ctx1 = (ys, err, c')"
    by (cases "command_from_context_loop cmds ctx1") auto
  have c1: "snd (snd (Command_check a ctx)) = ctx1" using cc by simp
  show ?case
  proof (cases k)
    case 0
    with Cons.prems cc have "res = Inl e" by (simp add: check_result_0)
    with cc show ?thesis by simp
  next
    case (Suc k')
    with Cons.prems have p0: "passed_over client msg (a # cmds) ctx 0" by blast
    have k': "k' < length cmds" "check_result cmds ctx1 k' = Inl e"
      using Cons.prems(1,2) Suc by (simp_all add: check_result_Cons c1)
    have "\<forall>j < k'. passed_over client msg cmds ctx1 j"
    proof (intro allI impI)
      fix j assume "j < k'"
      then have "Suc j < k" using Suc by simp
      with Cons.prems(3) have "passed_over client msg (a # cmds) ctx (Suc j)" by blast
      then show "passed_over client msg cmds ctx1 j" by (simp add: passed_over_Cons c1)
    qed
    from Cons.IH[OF k' this] r have ih: "first_accessible client msg ys = None" "err = Some e"
      by simp_all
    from p0 cc have "res = Inr False \<or> (res = Inr True \<and> \<not> access_check client a msg)"
      by (simp add: passed_over_def check_result_0)
    then show ?thesis using cc r ih by auto
  qed
qed

text \<open>A message that starts with none of the prefixes is ignored.\<close>

lemma on_message_create_no_prefix:
  assumes "\<forall>p \<in> set (get_prefixes client (guild_id msg)). \<not> prefix p (msg_content msg)"
  shows "on_message_create client msg = Inr None"
proof -
  from assms have "first_trigger (get_prefixes client (guild_id msg)) (msg_content msg) = None"
    by (simp add: first_trigger_None)
  then show ?thesis
    by (simp add: on_message_create_def CommandClient_check_prefix_def first_prefix_eq)
qed

text \<open>
  C4, as the claim states it, fails: a candidate command matched and did not pass the access
  check, no command passed it, and \<open>on_message_create\<close> raises, because the check of the
  next command raised an exception that \<open>except Exception\<close> does not catch.
\<close>

theorem on_message_create_interrupted_counterexample:
  "check_result [admin_ping_command, interrupted_command] ping_context 0 = Inr True
   \<and> \<not> access_check (example_client [admin_ping_command, interrupted_command])
         admin_ping_command ping_message
   \<and> check_result [admin_ping_command, interrupted_command] ping_context (Suc 0)
       = Inl (BaseOnly ''KeyboardInterrupt'')
   \<and> on_message_create (example_client [admin_ping_command, interrupted_command]) ping_message
       = Inl (BaseOnly ''KeyboardInterrupt'')"
  by (simp add: example_defs client_defs traversal_defs)

text \<open>
  C4, amended. \<open>access_check\<close> is true exactly when the author's configured access level,
  0 when the author has no entry, is at least the command's level. For a message with a
  non-empty resolved prefix, the commands are checked in traversal order (the client's own,
  then those of the registered clusters), each check on the context the one before left;
  a candidate is a command whose check returned true. Whenever \<open>on_message_create\<close>
  executes a command, it is the first candidate that passes the access check, every command
  before it having been passed over, and it is executed on the context its own check left,
  with the matched trigger and one separator cut off the content; conversely that candidate
  is executed when its check left a trigger name on the context. When the traversal runs to its end, every command being passed over (no
  check raised an exception outside \<open>Exception\<close>), nothing is executed and nothing is
  raised, in particular when candidates matched but none passed the access check; and an
  exception that leaves a check before any candidate passed the access check propagates.
\<close>

theorem on_message_create_selects_first_accessible:
  assumes pre: "CommandClient_check_prefix client msg = Some p" and ne: "p \<noteq> []"
  shows "(let cmds = traversal_order client;
              ctx0 = Context_init (drop (length p) (msg_content msg)) msg p PREFIX;
              candidate = (\<lambda>k. check_result cmds ctx0 k = Inr True);
              skipped = (\<lambda>j. check_result cmds ctx0 j = Inr False
                            \<or> (candidate j \<and> \<not> access_check client (cmds ! j) msg));
              left_by = (\<lambda>k. context_before cmds ctx0 (Suc k))
          in
          (access_check client cmd msg \<longleftrightarrow>
             level cmd \<le> (if author_id msg \<in> dom (access_levels client)
                           then the (access_levels client (author_id msg)) else 0))
        \<and> (\<forall>c x. on_message_create client msg = Inr (Some (c, x)) \<longrightarrow>
             (\<exists>k < length cmds. c = cmds ! k \<and> candidate k \<and> access_check client c msg
                \<and> (\<forall>j < k. skipped j)
                \<and> (\<exists>t. triggering_name (left_by k) = Some t
                      \<and> x = (left_by k)\<lparr>content := drop (length t + 1) (content (left_by k))\<rparr>)))
        \<and> (\<forall>k t. k < length cmds \<and> candidate k \<and> access_check client (cmds ! k) msg
                \<and> (\<forall>j < k. skipped j) \<and> triggering_name (left_by k) = Some t \<longrightarrow>
             on_message_create client msg
               = Inr (Some (cmds ! k,
                   (left_by k)\<lparr>content := drop (length t + 1) (content (left_by k))\<rparr>)))
        \<and> ((\<forall>k < length cmds. skipped k) \<longrightarrow> on_message_create client msg = Inr None)
        \<and> (\<forall>k e. k < length cmds \<and> check_result cmds ctx0 k = Inl e \<and> (\<forall>j < k. skipped j) \<longrightarrow>
             on_message_create client msg = Inl e))"
proof -
  let ?cmds = "traversal_order client"
  let ?ctx0 = "Context_init (drop (length p) (msg_content msg)) msg p PREFIX"
  let ?loop = "command_from_context_loop ?cmds ?ctx0"
  let ?cand = "\<lambda>k. check_result ?cmds ?ctx0 k = Inr True"
  let ?skip = "\<lambda>j. check_result ?cmds ?ctx0 j = Inr False
                   \<or> (?cand j \<and> \<not> access_check client (?cmds ! j) msg)"
  let ?left = "\<lambda>k. context_before ?cmds ?ctx0 (Suc k)"
  have sk: "?skip j = passed_over client msg ?cmds ?ctx0 j" for j
    by (simp add: passed_over_def)
  have omc: "on_message_create client msg =
      (case first_accessible client msg (fst ?loop) of
         Some (c, x) \<Rightarrow>
           (case triggering_name x of
              None \<Rightarrow> Inl AttributeError
            | Some t \<Rightarrow> Inr (Some (c, prune_content x (length t + 1))))
       | None \<Rightarrow> (case fst (snd ?loop) of Some e \<Rightarrow> Inl e | None \<Rightarrow> Inr None))"
    using pre ne
    by (simp add: on_message_create_def Let_def get_global_command_from_context_flat split_def)
  have a: "access_check client cmd msg \<longleftrightarrow>
            level cmd \<le> (if author_id msg \<in> dom (access_levels client)
                          then the (access_levels client (author_id msg)) else 0)"
    by (auto simp: access_check_def split: option.splits)
  have b: "\<exists>k < length ?cmds. c = ?cmds ! k \<and> ?cand k \<and> access_check client c msg
                \<and> (\<forall>j < k. ?skip j)
                \<and> (\<exists>t. triggering_name (?left k) = Some t
                      \<and> x = (?left k)\<lparr>content := drop (length t + 1) (content (?left k))\<rparr>)"
    if ex: "on_message_create client msg = Inr (Some (c, x))" for c x
  proof -
    from ex omc obtain x' t where fa: "first_accessible client msg (fst ?loop) = Some (c, x')"
      and t: "triggering_name x' = Some t" and x: "x = prune_content x' (length t + 1)"
      by (auto split: option.splits)
    from selection_sound[OF fa] obtain k where k: "k < length ?cmds" "c = ?cmds ! k"
      "x' = ?left k" "?cand k" "access_check client c msg"
      "\<forall>j < k. passed_over client msg ?cmds ?ctx0 j" by blast
    from k(6) have "\<forall>j < k. ?skip j" using sk by blast
    moreover have "triggering_name (?left k) = Some t
        \<and> x = (?left k)\<lparr>content := drop (length t + 1) (content (?left k))\<rparr>"
      using t x k(3) by (simp add: prune_content_def del: context_before.simps)
    ultimately show ?thesis using k(1,2,4,5) by blast
  qed
  have c: "on_message_create client msg
               = Inr (Some (?cmds ! k,
                   (?left k)\<lparr>content := drop (length t + 1) (content (?left k))\<rparr>))"
    if "k < length ?cmds" "?cand k" "access_check client (?cmds ! k) msg" "\<forall>j < k. ?skip j"
      "triggering_name (?left k) = Some t" for k t
  proof -
    from that(4) have "\<forall>j < k. passed_over client msg ?cmds ?ctx0 j" using sk by blast
    from selection_complete[OF that(1,2,3) this]
    have "first_accessible client msg (fst ?loop) = Some (?cmds ! k, ?left k)" .
    with omc that(5) show ?thesis by (simp add: prune_content_def del: context_before.simps)
  qed
  have d: "on_message_create client msg = Inr None" if "\<forall>k < length ?cmds. ?skip k"
  proof -
    from that have "\<forall>k < length ?cmds. passed_over client msg ?cmds ?ctx0 k" using sk by blast
    from selection_none[OF this] omc show ?thesis by simp
  qed
  have e: "on_message_create client msg = Inl e"
    if "k < length ?cmds" "check_result ?cmds ?ctx0 k = Inl e" "\<forall>j < k. ?skip j" for k e
  proof -
    from that(3) have "\<forall>j < k. passed_over client msg ?cmds ?ctx0 j" using sk by blast
    from selection_raise[OF that(1,2) this] omc show ?thesis by simp
  qed
  from a b c d e show ?thesis unfolding Let_def by blast
qed

theorem on_message_create_selects_first_accessible_witness:
  "on_message_create clustered_client ping_message
     = Inr (Some (ping_command,
         ping_context\<lparr>command := Some 1, content := ''now'', triggering_name := Some ''ping''\<rparr>))
   \<and> traversal_order clustered_client = [admin_ping_command, ping_command]
   \<and> \<not> access_check clustered_client admin_ping_command ping_message
   \<and> access_check clustered_client ping_command ping_message
   \<and> on_message_create (example_client [admin_ping_command]) ping_message = Inr None"
  using on_message_create_selects_first_accessible
      [of clustered_client ping_message "''!''" ping_command]
    on_message_create_selects_first_accessible
      [of "example_client [admin_ping_command]" ping_message "''!''" admin_ping_command]
  by (simp add: example_defs client_defs traversal_defs)

section \<open>The error manager: retry, give up, propagate\<close>

text \<open>
  The equation of \<open>respond_loop\<close> is applied one step at a time. With the default rules
  of \<open>clear_rules\<close>, a retriable failure is answered by its own rule, whatever
  \<open>break_on\<close> holds, and the loop goes on to the next permit.
\<close>

declare respond_loop.simps [simp del]

lemma issubclass_InternalServerError:
  "issubclass c [InternalServerError] \<longleftrightarrow> c = InternalServerError"
  by (cases c) (simp_all add: issubclass_def HTTPResponseError_mro_def)

lemma issubclass_RateLimitedError:
  "issubclass c [RateLimitedError] \<longleftrightarrow> c = RateLimitedError"
  by (cases c) (simp_all add: issubclass_def HTTPResponseError_mro_def)

lemma manager_exit_retriable:
  assumes "suppresses False" and "retriable suppresses e"
  shows "manager_exit suppresses (rules (clear_rules mgr break_on)) e b
           = (True,
              if exc_type e = RateLimitedError \<and> retry_after e \<le> 10
              then set_next_backoff b (retry_after e) else b)"
  using assms
  by (auto simp: retriable_def clear_rules_def issubclass_InternalServerError
        issubclass_RateLimitedError)


lemma manager_exit_break_on:
  assumes "issubclass (exc_type e) break_on"
    "exc_type e \<noteq> InternalServerError" "exc_type e \<noteq> RateLimitedError"
  shows "manager_exit suppresses (rules (clear_rules mgr break_on)) e b
           = (suppresses False, finish b)"
proof -
  from assms(1) have "break_on \<noteq> []" by (auto simp: issubclass_def)
  with assms show ?thesis
    by (simp add: clear_rules_def issubclass_InternalServerError issubclass_RateLimitedError)
qed

lemma respond_loop_advance:
  assumes sup: "suppresses False"
    and rs: "rs = rules (clear_rules mgr break_on)"
    and fails: "\<forall>k. n \<le> k \<and> k < m \<longrightarrow> (\<exists>e. respond k = Some e \<and> retriable suppresses e)"
    and nm: "n \<le> m" and mmax: "m \<le> max_retries b"
    and inv: "retries b = n" "\<not> finished b" "next_backoff b = pending respond n"
  shows "\<exists>b'. respond_loop suppresses rs respond b n slept
               = respond_loop suppresses rs respond b' m
                   (slept @ map (sleep_before respond) [max n 1 ..< m])
             \<and> retries b' = m \<and> \<not> finished b' \<and> next_backoff b' = pending respond m
             \<and> max_retries b' = max_retries b"
  using fails nm mmax inv
proof (induction "m - n" arbitrary: n b slept)
  case 0
  then have "n = m" by simp
  with 0 show ?case by auto
next
  case (Suc d)
  then have lt: "n < m" by simp
  with Suc.prems obtain e where e: "respond n = Some e" "retriable suppresses e" by blast
  let ?s = "if n = 0 then None else Some (sleep_before respond n)"
  let ?b1 = "if n = 0 then b\<lparr>retries := 1\<rparr> else b\<lparr>retries := Suc n, next_backoff := None\<rparr>"
  have nx: "anext b = Some (?s, ?b1)"
    using Suc.prems lt by (auto simp: anext_def sleep_before_def split: option.splits)
  have nb1: "next_backoff ?b1 = None"
    using Suc.prems by (simp add: pending_def)
  let ?b2 = "if exc_type e = RateLimitedError \<and> retry_after e \<le> 10
             then set_next_backoff ?b1 (retry_after e) else ?b1"
  have ex: "manager_exit suppresses rs e ?b1 = (True, ?b2)"
    using manager_exit_retriable[OF sup e(2), of mgr break_on ?b1] rs by simp
  let ?slept = "slept @ (case ?s of None \<Rightarrow> [] | Some d \<Rightarrow> [d])"
  have step: "respond_loop suppresses rs respond b n slept
               = respond_loop suppresses rs respond ?b2 (Suc n) ?slept"
    by (subst respond_loop.simps) (simp add: nx e(1) ex Let_def del: anext_def)
  have i1: "retries ?b2 = Suc n" by (simp add: set_next_backoff_def)
  have i2: "\<not> finished ?b2" using Suc.prems by (simp add: set_next_backoff_def)
  have i3: "next_backoff ?b2 = pending respond (Suc n)"
    using nb1 e(1) by (simp add: pending_def set_next_backoff_def)
  have i4: "max_retries ?b2 = max_retries b" by (simp add: set_next_backoff_def)
  have d: "d = m - Suc n" using Suc.hyps(2) by simp
  have f: "\<forall>k. Suc n \<le> k \<and> k < m \<longrightarrow> (\<exists>e. respond k = Some e \<and> retriable suppresses e)"
    using Suc.prems(1) by auto
  have le: "Suc n \<le> m" using lt by simp
  have mm: "m \<le> max_retries ?b2" using Suc.prems(3) i4 by simp
  from Suc.hyps(1)[OF d f le mm i1 i2 i3, of ?slept]
  obtain b' where b': "respond_loop suppresses rs respond ?b2 (Suc n) ?slept
               = respond_loop suppresses rs respond b' m
                   (?slept @ map (sleep_before respond) [max (Suc n) 1 ..< m])"
      "retries b' = m" "\<not> finished b'" "next_backoff b' = pending respond m"
      "max_retries b' = max_retries ?b2" by blast
  have sl: "?slept @ map (sleep_before respond) [max (Suc n) 1 ..< m]
          = slept @ map (sleep_before respond) [max n 1 ..< m]"
  proof (cases "n = 0")
    case True
    then show ?thesis by simp
  next
    case False
    then have "[max n 1 ..< m] = n # [Suc n ..< m]" using lt by (simp add: upt_conv_Cons)
    with False show ?thesis by simp
  qed
  from step b' sl i4 show ?case by auto
qed

lemma respond_loop_ended:
  "anext b = None \<Longrightarrow>
   respond_loop suppresses rs respond b n slept
     = \<lparr> ending_of = IteratorEnded, attempts = n, sleeps = slept, handler_after = b \<rparr>"
  by (subst respond_loop.simps) simp

lemma respond_loop_responded:
  "anext b = Some (s, b1) \<Longrightarrow> respond n = None \<Longrightarrow>
   respond_loop suppresses rs respond b n slept
     = \<lparr> ending_of = Responded, attempts = Suc n,
         sleeps = slept @ (case s of None \<Rightarrow> [] | Some d \<Rightarrow> [d]), handler_after = b1 \<rparr>"
  by (subst respond_loop.simps) (simp add: Let_def)

lemma respond_loop_suppressed:
  "anext b = Some (s, b1) \<Longrightarrow> respond n = Some e
   \<Longrightarrow> manager_exit suppresses rs e b1 = (True, b2) \<Longrightarrow>
   respond_loop suppresses rs respond b n slept
     = respond_loop suppresses rs respond b2 (Suc n)
         (slept @ (case s of None \<Rightarrow> [] | Some d \<Rightarrow> [d]))"
  by (subst respond_loop.simps) (simp add: Let_def)

lemma respond_loop_propagated:
  "anext b = Some (s, b1) \<Longrightarrow> respond n = Some e
   \<Longrightarrow> manager_exit suppresses rs e b1 = (False, b2) \<Longrightarrow>
   respond_loop suppresses rs respond b n slept
     = \<lparr> ending_of = Propagated e, attempts = Suc n,
         sleeps = slept @ (case s of None \<Rightarrow> [] | Some d \<Rightarrow> [d]), handler_after = b2 \<rparr>"
  by (subst respond_loop.simps) (simp add: Let_def)

lemma sleeps_snoc:
  "map f [1 ..< m] @ (case (if m = 0 then None else Some (f m)) of None \<Rightarrow> [] | Some d \<Rightarrow> [d])
     = map f [1 ..< Suc m]"
  by (cases "m = 0") simp_all

lemma try_respond_run:
  assumes sup: "suppresses False"
    and fails: "\<forall>k < m. \<exists>e. respond k = Some e \<and> retriable suppresses e"
    and mmax: "m \<le> max_retries (backoff_handler (HikariErrorManager_init handler break_on))"
  shows "\<exists>b'. try_respond suppresses (HikariErrorManager_init handler break_on) respond
               = respond_loop suppresses (rules (HikariErrorManager_init handler break_on)) respond
                   b' m (map (sleep_before respond) [1 ..< m])
             \<and> retries b' = m \<and> \<not> finished b' \<and> next_backoff b' = pending respond m
             \<and> max_retries b'
                 = max_retries (backoff_handler (HikariErrorManager_init handler break_on))"
proof -
  let ?mgr = "HikariErrorManager_init handler break_on"
  let ?b0 = "reset (backoff_handler ?mgr)"
  have rs: "rules ?mgr = rules (clear_rules ?mgr break_on)"
    by (simp add: HikariErrorManager_init_def clear_rules_def)
  have f: "\<forall>k. 0 \<le> k \<and> k < m \<longrightarrow> (\<exists>e. respond k = Some e \<and> retriable suppresses e)"
    using fails by simp
  have mm: "m \<le> max_retries ?b0" using mmax by (simp add: reset_def)
  have i: "retries ?b0 = 0" "\<not> finished ?b0" "next_backoff ?b0 = pending respond 0"
    by (simp_all add: reset_def pending_def)
  from respond_loop_advance[where suppresses = suppresses and slept = "[]", OF sup rs f _ mm i]
  show ?thesis by (simp add: try_respond_def reset_def)
qed

lemma respond_loop_permit:
  assumes "retries b = m" "\<not> finished b" "m < max_retries b" "next_backoff b = pending respond m"
  shows "\<exists>b1. anext b = Some (if m = 0 then None else Some (sleep_before respond m), b1)
           \<and> retries b1 = Suc m \<and> \<not> finished b1 \<and> max_retries b1 = max_retries b"
  using assms by (auto simp: anext_def sleep_before_def split: option.splits)

text \<open>The state of the loop at attempt m after m retriable failures, with a permit left.\<close>

lemma try_respond_at:
  assumes sup: "suppresses False"
    and fails: "\<forall>k < m. \<exists>e. respond k = Some e \<and> retriable suppresses e"
    and mmax: "m < max_retries (backoff_handler (HikariErrorManager_init handler break_on))"
  shows "\<exists>b' s b1. try_respond suppresses (HikariErrorManager_init handler break_on) respond
               = respond_loop suppresses (rules (HikariErrorManager_init handler break_on)) respond
                   b' m (map (sleep_before respond) [1 ..< m])
             \<and> anext b' = Some (s, b1)
             \<and> map (sleep_before respond) [1 ..< m] @ (case s of None \<Rightarrow> [] | Some d \<Rightarrow> [d])
                 = map (sleep_before respond) [1 ..< Suc m]
             \<and> \<not> finished b1"
proof -
  let ?mgr = "HikariErrorManager_init handler break_on"
  from mmax have "m \<le> max_retries (backoff_handler ?mgr)" by simp
  from try_respond_run[where suppresses = suppresses, OF sup fails this] obtain b' where
    run: "try_respond suppresses ?mgr respond
               = respond_loop suppresses (rules ?mgr) respond
                   b' m (map (sleep_before respond) [1 ..< m])"
    and inv: "retries b' = m" "\<not> finished b'" "next_backoff b' = pending respond m"
      "max_retries b' = max_retries (backoff_handler ?mgr)" by blast
  from inv mmax have "m < max_retries b'" by simp
  from respond_loop_permit[OF inv(1,2) this inv(3)] obtain b1 where
    nx: "anext b' = Some (if m = 0 then None else Some (sleep_before respond m), b1)"
    and nf: "\<not> finished b1" by blast
  from run nx nf sleeps_snoc[of "sleep_before respond" m] show ?thesis by blast
qed

lemma try_respond_success:
  assumes sup: "suppresses False"
    and fails: "\<forall>k < m. \<exists>e. respond k = Some e \<and> retriable suppresses e"
    and mmax: "m < max_retries (backoff_handler (HikariErrorManager_init handler break_on))"
    and ok: "respond m = None"
  shows "ending_of (try_respond suppresses (HikariErrorManager_init handler break_on) respond)
           = Responded
       \<and> attempts (try_respond suppresses (HikariErrorManager_init handler break_on) respond)
           = Suc m
       \<and> sleeps (try_respond suppresses (HikariErrorManager_init handler break_on) respond)
           = map (sleep_before respond) [1 ..< Suc m]"
proof -
  from try_respond_at[where suppresses = suppresses, OF sup fails mmax] obtain b' s b1 where
    run: "try_respond suppresses (HikariErrorManager_init handler break_on) respond
               = respond_loop suppresses (rules (HikariErrorManager_init handler break_on)) respond
                   b' m (map (sleep_before respond) [1 ..< m])"
    and nx: "anext b' = Some (s, b1)"
    and sl: "map (sleep_before respond) [1 ..< m] @ (case s of None \<Rightarrow> [] | Some d \<Rightarrow> [d])
                 = map (sleep_before respond) [1 ..< Suc m]" by blast
  show ?thesis unfolding run respond_loop_responded[where respond = respond and n = m, OF nx ok] sl by simp
qed

lemma try_respond_out_of_permits:
  assumes sup: "suppresses False"
    and fails: "\<forall>k < m. \<exists>e. respond k = Some e \<and> retriable suppresses e"
    and mmax: "m = max_retries (backoff_handler (HikariErrorManager_init handler break_on))"
  shows "ending_of (try_respond suppresses (HikariErrorManager_init handler break_on) respond)
           = IteratorEnded
       \<and> attempts (try_respond suppresses (HikariErrorManager_init handler break_on) respond) = m
       \<and> sleeps (try_respond suppresses (HikariErrorManager_init handler break_on) respond)
           = map (sleep_before respond) [1 ..< m]
       \<and> \<not> finished (handler_after
             (try_respond suppresses (HikariErrorManager_init handler break_on) respond))"
proof -
  from mmax have "m \<le> max_retries (backoff_handler (HikariErrorManager_init handler break_on))"
    by simp
  from try_respond_run[where suppresses = suppresses, OF sup fails this] obtain b' where
    run: "try_respond suppresses (HikariErrorManager_init handler break_on) respond
               = respond_loop suppresses (rules (HikariErrorManager_init handler break_on)) respond
                   b' m (map (sleep_before respond) [1 ..< m])"
    and inv: "retries b' = m" "\<not> finished b'" "next_backoff b' = pending respond m"
      "max_retries b'
         = max_retries (backoff_handler (HikariErrorManager_init handler break_on))" by blast
  from inv mmax have nx: "anext b' = None" by (simp add: anext_def)
  show ?thesis unfolding run respond_loop_ended[OF nx] using inv(2) by simp
qed


lemma try_respond_break_on:
  assumes sup: "suppresses False"
    and fails: "\<forall>k < m. \<exists>e. respond k = Some e \<and> retriable suppresses e"
    and mmax: "m < max_retries (backoff_handler (HikariErrorManager_init handler break_on))"
    and e: "respond m = Some e" "issubclass (exc_type e) break_on"
      "exc_type e \<noteq> InternalServerError" "exc_type e \<noteq> RateLimitedError"
  shows "ending_of (try_respond suppresses (HikariErrorManager_init handler break_on) respond)
           = IteratorEnded
       \<and> attempts (try_respond suppresses (HikariErrorManager_init handler break_on) respond)
           = Suc m
       \<and> finished (handler_after
             (try_respond suppresses (HikariErrorManager_init handler break_on) respond))"
proof -
  let ?mgr = "HikariErrorManager_init handler break_on"
  from try_respond_at[where suppresses = suppresses, OF sup fails mmax] obtain b' s b1 where
    run: "try_respond suppresses ?mgr respond
               = respond_loop suppresses (rules ?mgr) respond
                   b' m (map (sleep_before respond) [1 ..< m])"
    and nx: "anext b' = Some (s, b1)" by blast
  have rs: "rules ?mgr = rules (clear_rules ?mgr break_on)"
    by (simp add: HikariErrorManager_init_def clear_rules_def)
  have ex: "manager_exit suppresses (rules ?mgr) e b1 = (True, finish b1)"
    using manager_exit_break_on[OF e(2,3,4), of suppresses ?mgr b1] sup rs by simp
  have nx2: "anext (finish b1) = None" by (simp add: anext_def finish_def)
  show ?thesis
    unfolding run respond_loop_suppressed[where respond = respond and n = m, OF nx e(1) ex] respond_loop_ended[OF nx2]
    by (simp add: finish_def)
qed

lemmas manager_defs = try_respond_def HikariErrorManager_init_def clear_rules_def Backoff_init_def
  reset_def finish_def set_next_backoff_def anext_def issubclass_def HTTPResponseError_mro_def
  server_error_def rate_limited_def not_found_def always_failing_def failing_once_def
  suppress_always_def

lemma respond_loop_propagates_no_retriable:
  assumes "suppresses False" and "rs = rules (clear_rules mgr break_on)"
    and "ending_of (respond_loop suppresses rs respond b n slept) = Propagated e"
  shows "\<not> retriable suppresses e"
  using assms
proof (induction suppresses rs respond b n slept rule: respond_loop.induct)
  case (1 suppresses rs respond b n slept)
  show ?case
  proof (cases "anext b")
    case None
    from respond_loop_ended[OF None, of suppresses rs respond n slept] "1.prems"(3)
    show ?thesis by simp
  next
    case (Some sb)
    obtain s b1 where sb: "sb = (s, b1)" by (cases sb)
    with Some have nx: "anext b = Some (s, b1)" by simp
    show ?thesis
    proof (cases "respond n")
      case None
      from respond_loop_responded[where respond = respond and n = n, OF nx None,
          of suppresses rs slept] "1.prems"(3)
      show ?thesis by simp
    next
      case (Some e')
      obtain ok b2 where ex: "manager_exit suppresses rs e' b1 = (ok, b2)"
        by (cases "manager_exit suppresses rs e' b1")
      show ?thesis
      proof (cases ok)
        case True
        with ex have ex': "manager_exit suppresses rs e' b1 = (True, b2)" by simp
        from respond_loop_suppressed[where respond = respond and n = n, OF nx Some ex',
            of slept] "1.prems"(3)
        have "ending_of (respond_loop suppresses rs respond b2 (Suc n)
                 (slept @ (case s of None \<Rightarrow> [] | Some d \<Rightarrow> [d]))) = Propagated e" by simp
        from "1.IH"[OF nx[unfolded sb[symmetric]] sb[symmetric] refl Some ex'[symmetric] refl
            "1.prems"(1,2) this]
        show ?thesis .
      next
        case False
        with ex have ex': "manager_exit suppresses rs e' b1 = (False, b2)" by simp
        from respond_loop_propagated[where respond = respond and n = n, OF nx Some ex',
            of slept] "1.prems"(3)
        have "e = e'" by simp
        show ?thesis
        proof
          assume "retriable suppresses e"
          with \<open>e = e'\<close> have "retriable suppresses e'" by simp
          from manager_exit_retriable[OF "1.prems"(1) this, of mgr break_on b1] "1.prems"(2) ex'
          show False by simp
        qed
      qed
    qed
  qed
qed


lemma sleeps_all_server_error:
  assumes "\<forall>k < m. \<exists>e. respond k = Some e \<and> exc_type e = InternalServerError"
  shows "map (sleep_before respond) [1 ..< Suc m] = map Computed [1 ..< Suc m]"
proof (rule map_cong[OF refl])
  fix k assume "k \<in> set [1 ..< Suc m]"
  then have "0 < k" "k - 1 < m" by auto
  with assms obtain e where "respond (k - 1) = Some e" "exc_type e = InternalServerError" by blast
  with \<open>0 < k\<close> show "sleep_before respond k = Computed k"
    by (simp add: sleep_before_def pending_def)
qed





text \<open>
  C3, as the claim states it, fails: when every call raises an internal server error, the
  default manager makes five attempts, sleeping in between; and when only the first call
  raises one, a second attempt is made and succeeds.
\<close>

theorem server_error_counterexample:
  "attempts (try_respond Not (HikariErrorManager_init None []) (always_failing server_error)) = 5
   \<and> sleeps (try_respond Not (HikariErrorManager_init None []) (always_failing server_error))
       = [Computed 1, Computed 2, Computed 3, Computed 4]
   \<and> attempts (try_respond Not (HikariErrorManager_init None [])
        (failing_once server_error)) = 2
   \<and> ending_of (try_respond Not (HikariErrorManager_init None [])
        (failing_once server_error)) = Responded"
  by (simp add: manager_defs respond_loop.simps)

text \<open>
  C3, amended. With a manager that suppresses on \<open>False\<close>: an internal server error is
  never propagated out of \<open>try_respond\<close>; its rule leaves the backoff iterator untouched,
  so that the action is attempted again on the next permit. A run of internal server errors
  ends with the first successful attempt, or, when the iterator has no permit left, with
  \<open>try_respond\<close> returning after \<open>max_retries\<close> attempts without a response and without
  raising; the iterator was not force-finished. The callback of the HTTP-status variant
  likewise answers a status of 500 or more that is not in its break-on set with \<open>False\<close>
  and leaves its backoff handler as it is.
\<close>

theorem server_error_suppressed_and_retried:
  assumes sup: "suppresses False"
  shows "(let r = try_respond suppresses (HikariErrorManager_init handler break_on) respond;
              limit = max_retries (backoff_handler (HikariErrorManager_init handler break_on)) in
          (\<forall>e. ending_of r = Propagated e \<longrightarrow> exc_type e \<noteq> InternalServerError)
        \<and> (\<forall>m. (\<forall>k < m. \<exists>e. respond k = Some e \<and> exc_type e = InternalServerError)
                \<and> m < limit \<and> respond m = None \<longrightarrow>
              ending_of r = Responded \<and> attempts r = Suc m
              \<and> sleeps r = map Computed [1 ..< Suc m])
        \<and> ((\<forall>k < limit. \<exists>e. respond k = Some e \<and> exc_type e = InternalServerError) \<longrightarrow>
              ending_of r = IteratorEnded \<and> attempts r = limit
              \<and> sleeps r = map Computed [1 ..< limit] \<and> \<not> finished (handler_after r)))
       \<and> (\<forall>h e. status e \<ge> 500 \<and> status e \<notin> break_on_statuses h \<longrightarrow>
             on_client_response_error h e = (Inr False, status_backoff_handler h))"
proof -
  let ?mgr = "HikariErrorManager_init handler break_on"
  let ?r = "try_respond suppresses ?mgr respond"
  let ?limit = "max_retries (backoff_handler ?mgr)"
  have rs: "rules ?mgr = rules (clear_rules ?mgr break_on)"
    by (simp add: HikariErrorManager_init_def clear_rules_def)
  have a: "exc_type e \<noteq> InternalServerError" if "ending_of ?r = Propagated e" for e
  proof -
    from that have "ending_of (respond_loop suppresses (rules ?mgr) respond
        (reset (backoff_handler ?mgr)) 0 []) = Propagated e" by (simp add: try_respond_def)
    from respond_loop_propagates_no_retriable[where suppresses = suppresses, OF sup rs this]
    show ?thesis by (auto simp: retriable_def)
  qed
  have b: "ending_of ?r = Responded \<and> attempts ?r = Suc m
              \<and> sleeps ?r = map Computed [1 ..< Suc m]"
    if f: "\<forall>k < m. \<exists>e. respond k = Some e \<and> exc_type e = InternalServerError"
      and lt: "m < ?limit" and ok: "respond m = None" for m
  proof -
    from f have "\<forall>k < m. \<exists>e. respond k = Some e \<and> retriable suppresses e" by (auto simp: retriable_def)
    from try_respond_success[where suppresses = suppresses, OF sup this lt ok]
      sleeps_all_server_error[OF f]
    show ?thesis by simp
  qed
  have c: "ending_of ?r = IteratorEnded \<and> attempts ?r = ?limit
              \<and> sleeps ?r = map Computed [1 ..< ?limit] \<and> \<not> finished (handler_after ?r)"
    if f: "\<forall>k < ?limit. \<exists>e. respond k = Some e \<and> exc_type e = InternalServerError"
  proof -
    from f have f': "\<forall>k < ?limit. \<exists>e. respond k = Some e \<and> retriable suppresses e"
      by (auto simp: retriable_def)
    have "map (sleep_before respond) [1 ..< ?limit] = map Computed [1 ..< ?limit]"
    proof (cases ?limit)
      case 0
      then show ?thesis by simp
    next
      case (Suc l)
      with f have "\<forall>k < l. \<exists>e. respond k = Some e \<and> exc_type e = InternalServerError" by auto
      from sleeps_all_server_error[OF this] Suc show ?thesis by simp
    qed
    with try_respond_out_of_permits[where suppresses = suppresses, OF sup f' refl]
    show ?thesis by simp
  qed
  have d: "\<forall>h e. status e \<ge> 500 \<and> status e \<notin> break_on_statuses h \<longrightarrow>
             on_client_response_error h e = (Inr False, status_backoff_handler h)"
    by (simp add: on_client_response_error_def Let_def)
  from a b c d show ?thesis unfolding Let_def by blast
qed

theorem server_error_suppressed_and_retried_witness:
  "Not False
   \<and> ending_of (try_respond Not (HikariErrorManager_init None []) (always_failing server_error))
       = IteratorEnded
   \<and> attempts (try_respond Not (HikariErrorManager_init None []) (always_failing server_error)) = 5
   \<and> \<not> finished (handler_after
         (try_respond Not (HikariErrorManager_init None []) (always_failing server_error)))"
  using server_error_suppressed_and_retried [of Not None "[]" "always_failing server_error"]
  by (simp add: HikariErrorManager_init_def clear_rules_def Backoff_init_def server_error_def
      always_failing_def Let_def)

text \<open>
  C9, as the claim states it, fails: with \<open>break_on\<close> holding \<open>InternalServerError\<close>
  and an action that always raises one, the rule registered first answers, the iterator is
  never force-finished, and the action is attempted five times.
\<close>

theorem break_on_shadowed_counterexample:
  "attempts (try_respond Not (HikariErrorManager_init None [InternalServerError])
      (always_failing server_error)) = 5
   \<and> \<not> finished (handler_after (try_respond Not
         (HikariErrorManager_init None [InternalServerError]) (always_failing server_error)))
   \<and> attempts (try_respond suppress_always (HikariErrorManager_init None [InternalServerError])
      (always_failing server_error)) = 5
   \<and> \<not> finished (handler_after (try_respond suppress_always
         (HikariErrorManager_init None [InternalServerError]) (always_failing server_error)))"
  by (simp add: manager_defs respond_loop.simps)

text \<open>
  C9, amended. For a manager that suppresses on \<open>False\<close>. An exception raised by the
  guarded action whose class belongs to \<open>break_on\<close> and is matched by neither of the two
  rules registered before the break-on rule (internal server error, rate limit) makes the
  manager force-finish the backoff iterator and suppress the exception: \<open>try_respond\<close>
  returns without raising and the attempt that raised is the last one.
\<close>

theorem break_on_finishes_iterator:
  assumes sup: "suppresses False"
    and fails: "\<forall>k < m. \<exists>e. respond k = Some e \<and> retriable suppresses e"
    and mmax: "m < max_retries (backoff_handler (HikariErrorManager_init handler break_on))"
    and e: "respond m = Some e" "issubclass (exc_type e) break_on"
      "exc_type e \<noteq> InternalServerError" "exc_type e \<noteq> RateLimitedError"
  shows "ending_of (try_respond suppresses (HikariErrorManager_init handler break_on) respond)
           = IteratorEnded
       \<and> attempts (try_respond suppresses (HikariErrorManager_init handler break_on) respond)
           = Suc m
       \<and> finished (handler_after
             (try_respond suppresses (HikariErrorManager_init handler break_on) respond))"
  using try_respond_break_on[where suppresses = suppresses, OF sup fails mmax e] .

theorem break_on_finishes_iterator_witness:
  "try_respond Not (HikariErrorManager_init None [ForbiddenError, NotFoundError])
      (always_failing not_found)
     = \<lparr> ending_of = IteratorEnded, attempts = 1, sleeps = [],
         handler_after =
           \<lparr> retries = 1, max_retries = 5, next_backoff = None, finished = True \<rparr> \<rparr>
   \<and> issubclass (exc_type not_found) [ForbiddenError, NotFoundError]"
  using break_on_finishes_iterator
    [of Not 0 "always_failing not_found" None "[ForbiddenError, NotFoundError]" not_found]
  by (simp add: manager_defs respond_loop.simps)

end
